theory Spec2Isabelle
  imports Complex_Main "HOL-Library.Word" "HOL-Library.AList" "HOL-Library.Char_ord"
    "HOL-Library.List_Lexorder"
begin

section \<open>FilePoller (src/poller/filePoller.ts)\<close>









section \<open>JavaScript values\<close>

text \<open>
  The parser and the model builder work on values that come out of \<open>JSON.parse\<close> and are
  only cast, never converted, to the TypeScript interfaces. They are modelled as they are at
  run time: untyped values.

  A JavaScript number is a finite value or one of the three special values. Finite values
  are rationals: rounding, overflow to an infinity and the sign of zero are not modelled.
\<close>

datatype jsnum = Fin rat | PosInf | NegInf | NaN

datatype jsval =
    Undefined
  | Null
  | Bool bool
  | Num jsnum
  | Str string
  | Arr "jsval list"
  | Obj "(string \<times> jsval) list"

text \<open>The comparison operators \<open><=\<close>, \<open><\<close>, \<open>>=\<close>, \<open>>\<close> and \<open>===\<close> on numbers: every
  comparison with \<open>NaN\<close> is false.\<close>

fun js_le :: "jsnum \<Rightarrow> jsnum \<Rightarrow> bool" where
  "js_le NaN _ = False"
| "js_le _ NaN = False"
| "js_le NegInf _ = True"
| "js_le _ PosInf = True"
| "js_le (Fin a) (Fin b) = (a \<le> b)"
| "js_le _ _ = False"

fun js_lt :: "jsnum \<Rightarrow> jsnum \<Rightarrow> bool" where
  "js_lt NaN _ = False"
| "js_lt _ NaN = False"
| "js_lt (Fin a) (Fin b) = (a < b)"
| "js_lt NegInf NegInf = False"
| "js_lt NegInf _ = True"
| "js_lt PosInf _ = False"
| "js_lt (Fin a) PosInf = True"
| "js_lt (Fin a) NegInf = False"

definition js_ge :: "jsnum \<Rightarrow> jsnum \<Rightarrow> bool" where
  "js_ge a b = js_le b a"

definition js_gt :: "jsnum \<Rightarrow> jsnum \<Rightarrow> bool" where
  "js_gt a b = js_lt b a"

definition js_eq :: "jsnum \<Rightarrow> jsnum \<Rightarrow> bool" where
  "js_eq a b = (a \<noteq> NaN \<and> a = b)"

text \<open>Division, multiplication and \<open>Math.min\<close>.\<close>

fun js_div :: "jsnum \<Rightarrow> jsnum \<Rightarrow> jsnum" where
  "js_div NaN _ = NaN"
| "js_div _ NaN = NaN"
| "js_div (Fin a) (Fin b) =
     (if b = 0 then (if a = 0 then NaN else if 0 < a then PosInf else NegInf)
      else Fin (a / b))"
| "js_div (Fin a) _ = Fin 0"
| "js_div PosInf (Fin b) = (if 0 \<le> b then PosInf else NegInf)"
| "js_div NegInf (Fin b) = (if 0 \<le> b then NegInf else PosInf)"
| "js_div _ _ = NaN"

fun js_mul :: "jsnum \<Rightarrow> jsnum \<Rightarrow> jsnum" where
  "js_mul NaN _ = NaN"
| "js_mul _ NaN = NaN"
| "js_mul (Fin a) (Fin b) = Fin (a * b)"
| "js_mul (Fin a) PosInf = (if a = 0 then NaN else if 0 < a then PosInf else NegInf)"
| "js_mul (Fin a) NegInf = (if a = 0 then NaN else if 0 < a then NegInf else PosInf)"
| "js_mul PosInf (Fin b) = (if b = 0 then NaN else if 0 < b then PosInf else NegInf)"
| "js_mul NegInf (Fin b) = (if b = 0 then NaN else if 0 < b then NegInf else PosInf)"
| "js_mul PosInf PosInf = PosInf"
| "js_mul NegInf NegInf = PosInf"
| "js_mul _ _ = NegInf"

definition Math_min :: "jsnum \<Rightarrow> jsnum \<Rightarrow> jsnum" where
  "Math_min a b = (if a = NaN \<or> b = NaN then NaN else if js_le a b then a else b)"

definition Number_isFinite :: "jsnum \<Rightarrow> bool" where
  "Number_isFinite n = (case n of Fin _ \<Rightarrow> True | _ \<Rightarrow> False)"

text \<open>
  Property access \<open>v[k]\<close> on a value that is neither \<open>null\<close> nor \<open>undefined\<close>, for the
  property names the code uses (none of them is an array index or a built-in property):
  an object yields its entry, anything else \<open>undefined\<close>. On \<open>null\<close> and \<open>undefined\<close> the
  access throws; the functions below make that case explicit where the code can reach it.
  Optional chaining \<open>v?.k\<close> yields \<open>undefined\<close> there instead.
\<close>

definition getProp :: "jsval \<Rightarrow> string \<Rightarrow> jsval" where
  "getProp v k = (case v of
      Obj kvs \<Rightarrow> (case map_of kvs k of Some x \<Rightarrow> x | None \<Rightarrow> Undefined)
    | _ \<Rightarrow> Undefined)"

definition nullish :: "jsval \<Rightarrow> bool" where
  "nullish v = (v = Null \<or> v = Undefined)"

definition optProp :: "jsval \<Rightarrow> string \<Rightarrow> jsval" where
  "optProp v k = (if nullish v then Undefined else getProp v k)"

text \<open>\<open>typeof v === 'object' && v !== null\<close> (arrays are objects), \<open>Array.isArray\<close>, and
  truthiness.\<close>

definition isObject :: "jsval \<Rightarrow> bool" where
  "isObject v = (case v of Obj _ \<Rightarrow> True | Arr _ \<Rightarrow> True | _ \<Rightarrow> False)"

definition isArray :: "jsval \<Rightarrow> bool" where
  "isArray v = (case v of Arr _ \<Rightarrow> True | _ \<Rightarrow> False)"

definition isString :: "jsval \<Rightarrow> bool" where
  "isString v = (case v of Str _ \<Rightarrow> True | _ \<Rightarrow> False)"

definition isNumber :: "jsval \<Rightarrow> bool" where
  "isNumber v = (case v of Num _ \<Rightarrow> True | _ \<Rightarrow> False)"

definition truthy :: "jsval \<Rightarrow> bool" where
  "truthy v = (case v of
      Undefined \<Rightarrow> False | Null \<Rightarrow> False | Bool b \<Rightarrow> b
    | Num n \<Rightarrow> n \<noteq> Fin 0 \<and> n \<noteq> NaN
    | Str s \<Rightarrow> s \<noteq> []
    | _ \<Rightarrow> True)"

text \<open>
  The conversions of the language that are not code of this repository are parameters:
  \<open>ToNumber\<close> is what \<open>Number(v)\<close> gives on strings, arrays and objects, \<open>ToString\<close> what
  \<open>String(v)\<close> gives on values other than strings, and \<open>localeCompare\<close> the collation of
  \<open>String.prototype.localeCompare\<close>. Every theorem below holds for all of them.
\<close>

record Engine =
  ToNumber :: "jsval \<Rightarrow> jsnum"
  ToString :: "jsval \<Rightarrow> string"
  localeCompare :: "string \<Rightarrow> string \<Rightarrow> int"

definition js_Number :: "Engine \<Rightarrow> jsval \<Rightarrow> jsnum" where
  "js_Number E v = (case v of
      Num n \<Rightarrow> n
    | Undefined \<Rightarrow> NaN
    | Null \<Rightarrow> Fin 0
    | Bool b \<Rightarrow> (if b then Fin 1 else Fin 0)
    | _ \<Rightarrow> ToNumber E v)"

definition js_String :: "Engine \<Rightarrow> jsval \<Rightarrow> string" where
  "js_String E v = (case v of Str s \<Rightarrow> s | _ \<Rightarrow> ToString E v)"

text \<open>An engine for the closed examples: its conversions answer as JavaScript does on the
  values those examples contain (no example converts a string or an object to a number, nor
  a non-string to a string), and it compares equal strings as equal.\<close>

definition exampleEngine :: Engine where
  "exampleEngine = \<lparr> ToNumber = (\<lambda>v. NaN), ToString = (\<lambda>v. []),
      localeCompare = (\<lambda>a b. if a < b then - 1 else if a = b then 0 else 1) \<rparr>"

text \<open>\<open>Array.prototype.sort\<close> with a comparator is stable; it is modelled as insertion sort,
  which agrees with it whenever the comparator is a consistent ordering.\<close>

fun insert_by :: "('a \<Rightarrow> 'a \<Rightarrow> int) \<Rightarrow> 'a \<Rightarrow> 'a list \<Rightarrow> 'a list" where
  "insert_by cmp x [] = [x]"
| "insert_by cmp x (y # ys) = (if cmp x y \<le> 0 then x # y # ys else y # insert_by cmp x ys)"

definition js_sort :: "('a \<Rightarrow> 'a \<Rightarrow> int) \<Rightarrow> 'a list \<Rightarrow> 'a list" where
  "js_sort cmp xs = foldr (insert_by cmp) xs []"

text \<open>A \<open>Map\<close> is an association list in insertion order with distinct keys: \<open>get\<close> is
  \<open>map_of\<close>, \<open>set\<close> is \<open>AList.update\<close> (an existing key keeps its place, a new one goes
  last), \<open>delete\<close> is \<open>AList.delete\<close>, \<open>size\<close> is \<open>length\<close>. A \<open>Set\<close> is a list without
  repetitions in insertion order: \<open>has\<close> is membership, and \<open>add\<close> of a value that the set does
  not have appends it.\<close>

section \<open>Agent model (model/agentModel.ts)\<close>

datatype RiskLevel = Normal | Warning | Critical
datatype AgentStatus = Running | Waiting | Done | Error
datatype SessionStatus = Active | Idle | Completed | Errored
datatype Role = MainRole | SubagentRole

record ContextBreakdown =
  systemPrompt :: jsnum
  userMessages :: jsnum
  toolResults :: jsnum
  fileContext :: jsnum
  other :: jsnum

record ContextSnapshot =
  usedTokens :: jsnum
  maxTokens :: jsnum
  usagePercent :: jsnum
  breakdown :: "ContextBreakdown option"

text \<open>An agent owns its children, so the type is recursive and a datatype rather than a
  record; the selectors carry the field names. \<open>parentAgentId\<close> is copied from the raw
  record unchanged, whatever it is.\<close>

datatype Agent = Agent
  (agentId: string)
  (role: Role)
  (label: string)
  (parentAgentId: jsval)
  (contextUsage: ContextSnapshot)
  (children: "Agent list")
  (riskLevel: RiskLevel)
  (status: AgentStatus)
  (lastActivityAt: string)

record SessionSummary =
  hottestAgentId :: string
  hottestAgentLabel :: string
  hottestUsagePercent :: jsnum
  totalAgents :: nat
  warningAgentCount :: nat
  criticalAgentCount :: nat

record AgentSession =
  sessionId :: string
  startedAt :: string
  lastUpdatedAt :: string
  agents :: "Agent list"
  sessionSummary :: SessionSummary
  sessionStatus :: SessionStatus  \<comment> \<open>the field \<open>status\<close> of \<open>AgentSession\<close>\<close>

record Thresholds =
  warningPercent :: jsnum
  criticalPercent :: jsnum

definition DEFAULT_THRESHOLDS :: Thresholds where
  "DEFAULT_THRESHOLDS = \<lparr> warningPercent = Fin 70, criticalPercent = Fin 85 \<rparr>"

definition MAX_AGENT_DEPTH :: nat where
  "MAX_AGENT_DEPTH = 10"

definition computeUsagePercent :: "jsnum \<Rightarrow> jsnum \<Rightarrow> jsnum" where
  "computeUsagePercent used mx =
     (if js_le mx (Fin 0) then Fin 0
      else let pct = js_mul (js_div used mx) (Fin 100) in Math_min pct (Fin 100))"

definition computeRiskLevel :: "jsnum \<Rightarrow> Thresholds \<Rightarrow> RiskLevel" where
  "computeRiskLevel pct thresholds =
     (if js_ge pct (criticalPercent thresholds) then Critical
      else if js_ge pct (warningPercent thresholds) then Warning
      else Normal)"

function flattenAgents :: "Agent list \<Rightarrow> nat \<Rightarrow> Agent list" where
  "flattenAgents as depth =
     (if depth > MAX_AGENT_DEPTH then []
      else concat (map (\<lambda>a. a # (if length (children a) > 0
                                  then flattenAgents (children a) (depth + 1) else [])) as))"
  by pat_completeness auto
termination
  by (relation "measure (\<lambda>(as, depth). Suc MAX_AGENT_DEPTH - depth)") auto

declare flattenAgents.simps [simp del]

text \<open>The loop of \<open>computeSessionSummary\<close> over the flattened agents, started at \<open>all[0]\<close>.\<close>

definition hottestOf :: "Agent \<Rightarrow> Agent list \<Rightarrow> Agent" where
  "hottestOf first all =
     fold (\<lambda>a hottest.
            if js_gt (usagePercent (contextUsage a)) (usagePercent (contextUsage hottest))
            then a else hottest) all first"

definition computeSessionSummary :: "Agent list \<Rightarrow> SessionSummary" where
  "computeSessionSummary as =
     (let all = flattenAgents as 0 in
      case all of
        [] \<Rightarrow> \<lparr> hottestAgentId = [], hottestAgentLabel = [], hottestUsagePercent = Fin 0,
               totalAgents = 0, warningAgentCount = 0, criticalAgentCount = 0 \<rparr>
      | first # _ \<Rightarrow>
          (let hottest = hottestOf first all;
               warningCount = length (filter (\<lambda>a. riskLevel a = Warning) all);
               criticalCount = length (filter (\<lambda>a. riskLevel a = Critical) all)
           in \<lparr> hottestAgentId = agentId hottest, hottestAgentLabel = label hottest,
                hottestUsagePercent = usagePercent (contextUsage hottest),
                totalAgents = length all,
                warningAgentCount = warningCount, criticalAgentCount = criticalCount \<rparr>))"

definition toFiniteNumber :: "Engine \<Rightarrow> jsval \<Rightarrow> jsnum" where
  "toFiniteNumber E v = (let n = js_Number E v in if Number_isFinite n then n else Fin 0)"

definition sanitizeStatus :: "jsval \<Rightarrow> AgentStatus" where
  "sanitizeStatus v =
     (if v = Str ''running'' then Running
      else if v = Str ''waiting'' then Waiting
      else if v = Str ''done'' then Done
      else if v = Str ''error'' then Error
      else Running)"

text \<open>A \<open>TypeError\<close> is the one exception these functions can raise: a property read on
  \<open>null\<close> or \<open>undefined\<close>, or \<open>.map\<close> called on a value that is not an array.\<close>

datatype exn = TypeError

fun sequence_sum :: "('e + 'a) list \<Rightarrow> 'e + 'a list" where
  "sequence_sum [] = Inr []"
| "sequence_sum (Inl e # _) = Inl e"
| "sequence_sum (Inr x # rs) = (case sequence_sum rs of Inl e \<Rightarrow> Inl e | Inr xs \<Rightarrow> Inr (x # xs))"

function createAgent :: "Engine \<Rightarrow> string \<Rightarrow> Thresholds \<Rightarrow> nat \<Rightarrow> jsval \<Rightarrow> exn + Agent" where
  "createAgent E ts thresholds depth raw =
     (if nullish raw then Inl TypeError
      else
       (let context = getProp raw ''context'';
            used = toFiniteNumber E (optProp context ''usedTokens'');
            mx = toFiniteNumber E (optProp context ''maxTokens'');
            pct = computeUsagePercent used mx;
            risk = computeRiskLevel pct thresholds;
            bd = optProp context ''breakdown'';
            bdown = (if truthy bd
                     then Some \<lparr> systemPrompt = toFiniteNumber E (getProp bd ''systemPrompt''),
                                 userMessages = toFiniteNumber E (getProp bd ''userMessages''),
                                 toolResults = toFiniteNumber E (getProp bd ''toolResults''),
                                 fileContext = toFiniteNumber E (getProp bd ''fileContext''),
                                 other = toFiniteNumber E (getProp bd ''other'') \<rparr>
                     else None);
            kids = (if depth < MAX_AGENT_DEPTH
                    then (case getProp raw ''children'' of
                            Undefined \<Rightarrow> Inr []
                          | Null \<Rightarrow> Inr []
                          | Arr cs \<Rightarrow>
                              sequence_sum (map (createAgent E ts thresholds (depth + 1)) cs)
                          | _ \<Rightarrow> Inl TypeError)
                    else Inr [])
        in case kids of
             Inl e \<Rightarrow> Inl e
           | Inr cs \<Rightarrow>
               Inr (Agent
                 (js_String E (if nullish (getProp raw ''agentId'') then Str [] else getProp raw ''agentId''))
                 (if getProp raw ''role'' = Str ''subagent'' then SubagentRole else MainRole)
                 (js_String E (if nullish (getProp raw ''label'') then Str [] else getProp raw ''label''))
                 (getProp raw ''parentAgentId'')
                 \<lparr> usedTokens = used, maxTokens = mx, usagePercent = pct, breakdown = bdown \<rparr>
                 cs
                 risk
                 (sanitizeStatus (getProp raw ''status''))
                 ts)))"
  by pat_completeness auto
termination
  by (relation "measure (\<lambda>(E, ts, thresholds, depth, raw). MAX_AGENT_DEPTH - depth)") auto

declare createAgent.simps [simp del]

text \<open>
  \<open>RawLogEntry\<close> after the type guard \<open>isValidEntry\<close>: the four top-level fields have the
  types the guard checked, the agents are still untyped values.
\<close>

record RawLogEntry =
  entry_v :: jsnum
  entry_ts :: string
  entry_sessionId :: string
  entry_agents :: "jsval list"

definition createSession :: "Engine \<Rightarrow> RawLogEntry \<Rightarrow> Thresholds \<Rightarrow> exn + AgentSession" where
  "createSession E entry thresholds =
     (case sequence_sum (map (createAgent E (entry_ts entry) thresholds 0) (entry_agents entry)) of
        Inl e \<Rightarrow> Inl e
      | Inr as \<Rightarrow>
         (let summary = computeSessionSummary as;
              allAgents = flattenAgents as 0;
              st = (if list_all (\<lambda>a. status a = Done) allAgents then Completed
                    else if list_ex (\<lambda>a. status a = Error) allAgents then Errored
                    else if list_all (\<lambda>a. status a = Waiting) allAgents then Idle
                    else Active)
          in Inr \<lparr> sessionId = entry_sessionId entry, startedAt = entry_ts entry,
                   lastUpdatedAt = entry_ts entry, agents = as,
                   sessionSummary = summary, sessionStatus = st \<rparr>))"



text \<open>The same for raw records: the raw agents at an exact nesting depth, following the
  \<open>children\<close> arrays.\<close>

definition rawChildren :: "jsval \<Rightarrow> jsval list" where
  "rawChildren raw = (case getProp raw ''children'' of Arr cs \<Rightarrow> cs | _ \<Rightarrow> [])"

fun rawAtDepth :: "nat \<Rightarrow> jsval list \<Rightarrow> jsval list" where
  "rawAtDepth 0 rs = rs"
| "rawAtDepth (Suc n) rs = rawAtDepth n (concat (map rawChildren rs))"


text \<open>An example input: a chain of \<open>n + 1\<close> raw agents, each the only child of the one
  before, named by their depth (the agent at depth \<open>i\<close> is \<open>a\<close> followed by \<open>i\<close> times \<open>x\<close>).\<close>

definition chainId :: "nat \<Rightarrow> string" where
  "chainId i = CHR ''a'' # replicate i (CHR ''x'')"

fun rawChain :: "nat \<Rightarrow> nat \<Rightarrow> jsval" where
  "rawChain 0 i =
     Obj [(''agentId'', Str (chainId i)),
          (''context'', Obj [(''usedTokens'', Num (Fin 1)), (''maxTokens'', Num (Fin 2))])]"
| "rawChain (Suc n) i =
     Obj [(''agentId'', Str (chainId i)),
          (''context'', Obj [(''usedTokens'', Num (Fin 1)), (''maxTokens'', Num (Fin 2))]),
          (''children'', Arr [rawChain n (Suc i)])]"



text \<open>The raw records on which \<open>createAgent\<close> does not throw: the record is not \<open>null\<close> or
  \<open>undefined\<close> and, above the depth cap, its \<open>children\<close> are missing, \<open>null\<close>, or an array
  of such records.\<close>

function buildable :: "nat \<Rightarrow> jsval \<Rightarrow> bool" where
  "buildable depth raw =
     (\<not> nullish raw \<and>
      (if depth < MAX_AGENT_DEPTH
       then (case getProp raw ''children'' of
               Undefined \<Rightarrow> True
             | Null \<Rightarrow> True
             | Arr cs \<Rightarrow> list_all (buildable (depth + 1)) cs
             | _ \<Rightarrow> False)
       else True))"
  by pat_completeness auto
termination
  by (relation "measure (\<lambda>(depth, raw). MAX_AGENT_DEPTH - depth)") auto

declare buildable.simps [simp del]

section \<open>JsonlParser (parser/jsonlParser.ts)\<close>

definition SUPPORTED_VERSION :: jsnum where
  "SUPPORTED_VERSION = Fin 1"

definition MAX_DEDUP_KEYS :: nat where
  "MAX_DEDUP_KEYS = 10000"

definition MAX_SESSIONS :: nat where
  "MAX_SESSIONS = 100"

record JsonlParser =
  pendingPartialLine :: string
  seenKeys :: "string list"
  latestTsPerSession :: "(string \<times> string) list"
  sessions :: "(string \<times> AgentSession) list"
  malformedLineCount :: nat
  thresholds :: Thresholds

text \<open>The parser after construction, and after \<open>reset()\<close>.\<close>

definition newParser :: "Thresholds \<Rightarrow> JsonlParser" where
  "newParser th = \<lparr> pendingPartialLine = [], seenKeys = [], latestTsPerSession = [],
      sessions = [], malformedLineCount = 0, thresholds = th \<rparr>"

function isValidAgentShape :: "jsval \<Rightarrow> nat \<Rightarrow> bool" where
  "isValidAgentShape obj depth =
     (if depth > MAX_AGENT_DEPTH then False
      else if \<not> isObject obj then False
      else if \<not> isString (getProp obj ''agentId'') \<or> getProp obj ''agentId'' = Str [] then False
      else if \<not> isObject (getProp obj ''context'') then False
      else (case getProp obj ''children'' of
              Arr cs \<Rightarrow> list_all (\<lambda>child. isValidAgentShape child (depth + 1)) cs
            | _ \<Rightarrow> True))"
  by pat_completeness auto
termination
  by (relation "measure (\<lambda>(obj, depth). Suc MAX_AGENT_DEPTH - depth)") auto

declare isValidAgentShape.simps [simp del]

definition arrayItems :: "jsval \<Rightarrow> jsval list" where
  "arrayItems v = (case v of Arr xs \<Rightarrow> xs | _ \<Rightarrow> [])"

text \<open>\<open>isValidEntry\<close> counts and logs every rejection; it returns the verdict together with
  the parser whose counter it has incremented.\<close>

definition isValidEntry :: "jsval \<Rightarrow> JsonlParser \<Rightarrow> bool \<times> JsonlParser" where
  "isValidEntry obj p =
     (let rejected = (False, p\<lparr>malformedLineCount := malformedLineCount p + 1\<rparr>) in
      if \<not> isObject obj then rejected
      else if \<not> isNumber (getProp obj ''v'') then rejected
      else if \<not> isString (getProp obj ''ts'') then rejected
      else if \<not> isString (getProp obj ''sessionId'') \<or> getProp obj ''sessionId'' = Str []
        then rejected
      else if \<not> isArray (getProp obj ''agents'') then rejected
      else if \<not> list_all (\<lambda>agent. isValidAgentShape agent 0) (arrayItems (getProp obj ''agents''))
        then rejected
      else (True, p))"

text \<open>The cast \<open>parsed as RawLogEntry\<close>, which the code performs only after the guard.\<close>

definition asRawLogEntry :: "jsval \<Rightarrow> RawLogEntry" where
  "asRawLogEntry obj =
     \<lparr> entry_v = (case getProp obj ''v'' of Num n \<Rightarrow> n | _ \<Rightarrow> NaN),
       entry_ts = (case getProp obj ''ts'' of Str s \<Rightarrow> s | _ \<Rightarrow> []),
       entry_sessionId = (case getProp obj ''sessionId'' of Str s \<Rightarrow> s | _ \<Rightarrow> []),
       entry_agents = arrayItems (getProp obj ''agents'') \<rparr>"

text \<open>
  \<open>sorted.slice(0, sorted.length - MAX_SESSIONS)\<close>: a negative end counts from the end of
  the array.
\<close>

definition slice0 :: "'a list \<Rightarrow> int \<Rightarrow> 'a list" where
  "slice0 xs e = take (nat (if e < 0 then max (int (length xs) + e) 0 else e)) xs"

definition evictOldestSessions :: "Engine \<Rightarrow> JsonlParser \<Rightarrow> JsonlParser" where
  "evictOldestSessions E p =
     (let sorted = js_sort (\<lambda>a b. localeCompare E (lastUpdatedAt (snd a)) (lastUpdatedAt (snd b)))
                     (sessions p);
          toRemove = slice0 sorted (int (length sorted) - int MAX_SESSIONS)
      in fold (\<lambda>(sid, _) q. q\<lparr> sessions := AList.delete sid (sessions q),
                                latestTsPerSession := AList.delete sid (latestTsPerSession q) \<rparr>)
           toRemove p)"

text \<open>The session ids that a call of \<open>evictOldestSessions\<close> removes.\<close>

definition evictedIds :: "Engine \<Rightarrow> JsonlParser \<Rightarrow> string set" where
  "evictedIds E p =
     fst ` set (slice0 (js_sort (\<lambda>a b. localeCompare E (lastUpdatedAt (snd a)) (lastUpdatedAt (snd b)))
                          (sessions p))
                  (int (length (sessions p)) - int MAX_SESSIONS))"

text \<open>The dedup key \<open>`${entry.sessionId}:${entry.ts}`\<close>.\<close>

definition dedupKeyOf :: "RawLogEntry \<Rightarrow> string" where
  "dedupKeyOf entry = entry_sessionId entry @ '':'' @ entry_ts entry"

text \<open>
  The pruning of \<open>seenKeys\<close> after \<open>add\<close>: when the set has more than \<open>MAX_DEDUP_KEYS\<close>
  elements, the loop takes \<open>MAX_DEDUP_KEYS / 2\<close> times the next value of the set's iterator
  and deletes it, which removes the oldest \<open>MAX_DEDUP_KEYS / 2\<close> keys.
\<close>

definition pruneKeys :: "string list \<Rightarrow> string list" where
  "pruneKeys keys =
     (if length keys > MAX_DEDUP_KEYS then drop (MAX_DEDUP_KEYS div 2) keys else keys)"

text \<open>
  \<open>parseLine\<close> returns nothing; the model returns, next to the updated parser, which of its
  exits the call took. \<open>MalformedJson\<close>, \<open>InvalidEntry\<close>, \<open>UnsupportedVersion\<close> and
  \<open>OutOfOrder\<close> are the exits that log a warning, \<open>Duplicate\<close> returns without logging,
  \<open>Threw\<close> is an exception of \<open>createSession\<close> leaving the function. The argument is what
  \<open>JSON.parse(line)\<close> gave: \<open>None\<close> when it threw.
\<close>

datatype LineOutcome =
  MalformedJson | InvalidEntry | UnsupportedVersion | Duplicate | OutOfOrder | Accepted | Threw exn

definition parseLine :: "Engine \<Rightarrow> jsval option \<Rightarrow> JsonlParser \<Rightarrow> LineOutcome \<times> JsonlParser" where
  "parseLine E parsedOpt p =
    (case parsedOpt of
       None \<Rightarrow> (MalformedJson, p\<lparr>malformedLineCount := malformedLineCount p + 1\<rparr>)
     | Some parsed \<Rightarrow>
        (case isValidEntry parsed p of
           (False, p1) \<Rightarrow> (InvalidEntry, p1)
         | (True, p1) \<Rightarrow>
            (let entry = asRawLogEntry parsed in
             if js_gt (entry_v entry) SUPPORTED_VERSION then (UnsupportedVersion, p1)
             else
              (let dedupKey = dedupKeyOf entry in
               if dedupKey \<in> set (seenKeys p1) then (Duplicate, p1)
               else
                (let p2 = p1\<lparr>seenKeys := pruneKeys (seenKeys p1 @ [dedupKey])\<rparr>;
                     latestTs = map_of (latestTsPerSession p2) (entry_sessionId entry)
                 in if (case latestTs of
                          Some lt \<Rightarrow> lt \<noteq> [] \<and> entry_ts entry < lt
                        | None \<Rightarrow> False)
                    then (OutOfOrder, p2)
                    else
                     (let p3 = p2\<lparr>latestTsPerSession :=
                                 AList.update (entry_sessionId entry) (entry_ts entry)
                                   (latestTsPerSession p2)\<rparr>
                      in case createSession E entry (thresholds p3) of
                           Inl e \<Rightarrow> (Threw e, p3)
                         | Inr session \<Rightarrow>
                            (let existing = map_of (sessions p3) (entry_sessionId entry);
                                 session' = (case existing of
                                               Some ex \<Rightarrow> session\<lparr>startedAt := startedAt ex\<rparr>
                                             | None \<Rightarrow> session);
                                 p4 = p3\<lparr>sessions :=
                                        AList.update (entry_sessionId entry) session' (sessions p3)\<rparr>
                             in (Accepted,
                                 if length (sessions p4) > MAX_SESSIONS
                                 then evictOldestSessions E p4 else p4))))))))"

text \<open>A sequence of calls of \<open>parseLine\<close>, one per line, in order.\<close>

definition parseLines :: "Engine \<Rightarrow> jsval option list \<Rightarrow> JsonlParser \<Rightarrow> JsonlParser" where
  "parseLines E ls p = fold (\<lambda>l q. snd (parseLine E l q)) ls p"

section \<open>StateStore (store/stateStore.ts)\<close>

text \<open>
  The store with the calls of \<open>emitter.fire\<close> it has made so far, oldest first.
  \<open>JSON.stringify\<close> is not code of this repository and is a parameter of \<open>computeHash\<close>.
\<close>

record StateStore =
  currentState :: "AgentSession option"
  storeDisposed :: bool  \<comment> \<open>the field \<open>disposed\<close> of \<open>StateStore\<close>\<close>
  lastStateHash :: string
  fired :: "AgentSession option list"

definition newStateStore :: StateStore where
  "newStateStore = \<lparr> currentState = None, storeDisposed = False, lastStateHash = [], fired = [] \<rparr>"

definition computeHash :: "(SessionSummary \<Rightarrow> string) \<Rightarrow> AgentSession \<Rightarrow> string" where
  "computeHash stringify session =
     sessionId session @ '':'' @ lastUpdatedAt session @ '':'' @ stringify (sessionSummary session)"

definition setState :: "(SessionSummary \<Rightarrow> string) \<Rightarrow> AgentSession option \<Rightarrow> StateStore \<Rightarrow> StateStore" where
  "setState stringify session st =
     (if storeDisposed st then st
      else
       (let newHash = (case session of Some s \<Rightarrow> computeHash stringify s | None \<Rightarrow> []) in
        if newHash = lastStateHash st then st
        else st\<lparr> lastStateHash := newHash, currentState := session,
                 fired := fired st @ [session] \<rparr>))"

text \<open>A rendering of summaries for the closed examples, standing for \<open>JSON.stringify\<close>: like
  it, it is a function of the summary alone.\<close>

definition exampleStringify :: "SessionSummary \<Rightarrow> string" where
  "exampleStringify s = ''{'' @ hottestAgentId s @ '','' @ hottestAgentLabel s @ ''}''"

text \<open>Two sessions for the closed examples: they differ in their status and in nothing
  else.\<close>

definition exampleSession :: "SessionStatus \<Rightarrow> AgentSession" where
  "exampleSession st =
     \<lparr> sessionId = ''sess-1'', startedAt = ''2026-02-21T10:00:00.000Z'',
       lastUpdatedAt = ''2026-02-21T10:00:00.000Z'', agents = [],
       sessionSummary = \<lparr> hottestAgentId = [], hottestAgentLabel = [], hottestUsagePercent = Fin 0,
                          totalAgents = 0, warningAgentCount = 0, criticalAgentCount = 0 \<rparr>,
       sessionStatus = st \<rparr>"

text \<open>Parsed lines for the closed examples: a line whose only root agent heads a chain of
  \<open>n + 1\<close> nested agents, and a line of session \<open>sid\<close> at time \<open>ts\<close> with the given
  agents.\<close>

definition lineWith :: "string \<Rightarrow> string \<Rightarrow> jsval list \<Rightarrow> jsval" where
  "lineWith sid ts as =
     Obj [(''v'', Num (Fin 1)), (''ts'', Str ts), (''sessionId'', Str sid), (''agents'', Arr as)]"

definition chainLine :: "nat \<Rightarrow> jsval" where
  "chainLine n = lineWith ''s1'' ''2026-01-01T00:00:00Z'' [rawChain n 0]"

text \<open>A parser for the closed examples: a new parser that has read one line of session
  \<open>s1\<close>, without agents, at the given time.\<close>

definition parserAfter :: "string \<Rightarrow> JsonlParser" where
  "parserAfter ts =
     snd (parseLine exampleEngine (Some (lineWith ''s1'' ts [])) (newParser DEFAULT_THRESHOLDS))"

text \<open>
  A long input for the closed examples: line \<open>i\<close> is the first and only line of session
  number \<open>i\<close>, all lines carry the same timestamp and no agents. \<open>sessionOf i\<close> is the
  session such a line creates, \<open>stateOf keys js\<close> the parser that has the given dedup keys
  and holds exactly the sessions numbered \<open>js\<close>, in that order.
\<close>

definition sidOf :: "nat \<Rightarrow> string" where
  "sidOf i = CHR ''s'' # replicate i (CHR ''x'')"

definition tsAll :: string where
  "tsAll = ''2026-01-01T00:00:00Z''"

definition sessionLine :: "nat \<Rightarrow> jsval" where
  "sessionLine i = lineWith (sidOf i) tsAll []"

definition keyOf :: "nat \<Rightarrow> string" where
  "keyOf i = sidOf i @ '':'' @ tsAll"

definition sessionOf :: "nat \<Rightarrow> AgentSession" where
  "sessionOf i =
     \<lparr> sessionId = sidOf i, startedAt = tsAll, lastUpdatedAt = tsAll, agents = [],
       sessionSummary = \<lparr> hottestAgentId = [], hottestAgentLabel = [], hottestUsagePercent = Fin 0,
                          totalAgents = 0, warningAgentCount = 0, criticalAgentCount = 0 \<rparr>,
       sessionStatus = Completed \<rparr>"

definition stateOf :: "string list \<Rightarrow> nat list \<Rightarrow> JsonlParser" where
  "stateOf keys js =
     \<lparr> pendingPartialLine = [], seenKeys = keys,
       latestTsPerSession = map (\<lambda>i. (sidOf i, tsAll)) js,
       sessions = map (\<lambda>i. (sidOf i, sessionOf i)) js,
       malformedLineCount = 0, thresholds = DEFAULT_THRESHOLDS \<rparr>"

definition feedSessions :: "nat \<Rightarrow> JsonlParser" where
  "feedSessions n =
     parseLines exampleEngine (map (\<lambda>i. Some (sessionLine i)) [0..<n]) (newParser DEFAULT_THRESHOLDS)"

section \<open>CopilotSessionReader (reader/copilotSessionReader.ts)\<close>

record SubagentCall =
  toolCallId :: string
  description :: string
  modelName :: string
  isComplete :: bool
  requestIndex :: jsnum
  promptTokensAtTurn :: jsnum

record PromptTokenDetail =
  category :: string
  detailLabel :: string  \<comment> \<open>the field \<open>label\<close>\<close>
  percentageOfPrompt :: jsnum

record VscodeChatSession =
  chatSessionId :: string  \<comment> \<open>the field \<open>sessionId\<close>\<close>
  fileName :: string
  creationDate :: jsnum
  chatModelName :: string  \<comment> \<open>the field \<open>modelName\<close>\<close>
  modelIdentifier :: string
  maxInputTokens :: jsnum
  maxOutputTokens :: jsnum
  latestPromptTokens :: jsnum
  latestCompletionTokens :: jsnum
  promptTokenDetails :: "PromptTokenDetail list"
  lastModifiedMs :: jsnum
  turnCount :: nat
  subagentCalls :: "SubagentCall list"

record FileState =
  offset :: nat
  pendingPartial :: string
  session :: "VscodeChatSession option"
  subagentRequestIndex :: "(string \<times> jsnum) list"

text \<open>
  The two maps of the reader. In the code \<open>fileStates\<close> and \<open>sessions\<close> hold references to
  the same session object, which \<open>processKind1\<close> and \<open>processKind2\<close> mutate in place; every
  path that mutates it also stores it in \<open>sessions\<close> again, so storing the updated value in
  both maps gives the same contents.
\<close>

record CopilotSessionReader =
  fileStates :: "(string \<times> FileState) list"
  chatSessions :: "(string \<times> VscodeChatSession) list"  \<comment> \<open>the field \<open>sessions\<close>\<close>

definition stringOrEmpty :: "jsval \<Rightarrow> string" where
  "stringOrEmpty v = (case v of Str s \<Rightarrow> s | _ \<Rightarrow> [])"

definition extractSubagentCallsFromResponse :: "jsval list \<Rightarrow> jsnum \<Rightarrow> jsnum \<Rightarrow> SubagentCall list" where
  "extractSubagentCallsFromResponse responseItems reqIdx tokens =
     concat (map (\<lambda>item.
       if \<not> isObject item then []
       else if getProp item ''kind'' \<noteq> Str ''toolInvocationSerialized'' then []
       else
        (let td = getProp item ''toolSpecificData'' in
         if \<not> isObject td then []
         else if getProp td ''kind'' \<noteq> Str ''subagent'' then []
         else
          (let callId = stringOrEmpty (getProp item ''toolCallId'') in
           if callId = [] then []
           else [\<lparr> toolCallId = callId,
                    description = stringOrEmpty (getProp td ''description''),
                    modelName = stringOrEmpty (getProp td ''modelName''),
                    isComplete = (getProp item ''isComplete'' = Bool True),
                    requestIndex = reqIdx,
                    promptTokensAtTurn = tokens \<rparr>]))) responseItems)"

text \<open>\<open>typeof k[1] === 'number' ? k[1] : -1\<close>.\<close>

definition turnIndexOf :: "jsval \<Rightarrow> jsnum" where
  "turnIndexOf k1 = (case k1 of Num n \<Rightarrow> n | _ \<Rightarrow> Fin (- 1))"

text \<open>\<open>new Map(calls.map(c => [c.toolCallId, c]))\<close> followed by \<open>set\<close> for each new call, and
  the values of the resulting map.\<close>

definition mergeCalls :: "SubagentCall list \<Rightarrow> SubagentCall list \<Rightarrow> SubagentCall list" where
  "mergeCalls old new =
     map snd (fold (\<lambda>c m. AList.update (toolCallId c) c m) new
               (fold (\<lambda>c m. AList.update (toolCallId c) c m) old []))"

definition processKind2 ::
  "string \<Rightarrow> jsval \<Rightarrow> jsnum \<Rightarrow> CopilotSessionReader \<Rightarrow> bool \<times> CopilotSessionReader" where
  "processKind2 fname rec mtimeMs R =
    (case map_of (fileStates R) fname of
       None \<Rightarrow> (False, R)
     | Some state \<Rightarrow>
        (case session state of
           None \<Rightarrow> (False, R)
         | Some sess \<Rightarrow>
            (case getProp rec ''k'' of
               Arr [k0, k1, k2] \<Rightarrow>
                 if k0 \<noteq> Str ''requests'' \<or> k2 \<noteq> Str ''response'' then (False, R)
                 else
                  (case getProp rec ''v'' of
                     Arr v \<Rightarrow>
                      (let reqIdx = turnIndexOf k1;
                           newCalls = extractSubagentCallsFromResponse v reqIdx (Fin 0)
                       in if length newCalls = 0 then (False, R)
                          else
                           (let idx = fold (\<lambda>call m. AList.update (toolCallId call) reqIdx m)
                                        newCalls (subagentRequestIndex state);
                                sess' = sess\<lparr> subagentCalls := mergeCalls (subagentCalls sess) newCalls,
                                             lastModifiedMs := mtimeMs \<rparr>;
                                state' = state\<lparr> subagentRequestIndex := idx, session := Some sess' \<rparr>
                            in (True, R\<lparr> fileStates := AList.update fname state' (fileStates R),
                                         chatSessions := AList.update fname sess' (chatSessions R) \<rparr>)))
                   | _ \<Rightarrow> (False, R))
             | _ \<Rightarrow> (False, R))))"

definition detailsOf :: "jsval \<Rightarrow> PromptTokenDetail list" where
  "detailsOf rawDetails =
     (case rawDetails of
        Arr items \<Rightarrow>
          map (\<lambda>item. \<lparr> category = stringOrEmpty (getProp item ''category''),
                         detailLabel = stringOrEmpty (getProp item ''label''),
                         percentageOfPrompt =
                           (case getProp item ''percentageOfPrompt'' of Num n \<Rightarrow> n | _ \<Rightarrow> Fin 0) \<rparr>)
              (filter isObject items)
      | _ \<Rightarrow> [])"

text \<open>The callback of \<open>subagentCalls.map\<close> in \<open>processKind1\<close>: a call that the side index
  records against the turn, and whose token count is not yet the turn's, gets the turn's.\<close>

definition backfill :: "(string \<times> jsnum) list \<Rightarrow> jsnum \<Rightarrow> jsnum \<Rightarrow> SubagentCall \<Rightarrow> SubagentCall" where
  "backfill idx reqIdx promptTokens call =
     (if (case map_of idx (toolCallId call) of
            Some callReqIdx \<Rightarrow> js_eq callReqIdx reqIdx
          | None \<Rightarrow> False)
         \<and> \<not> js_eq (promptTokensAtTurn call) promptTokens
      then call\<lparr>promptTokensAtTurn := promptTokens\<rparr>
      else call)"

definition processKind1 ::
  "string \<Rightarrow> jsval \<Rightarrow> jsnum \<Rightarrow> CopilotSessionReader \<Rightarrow> bool \<times> CopilotSessionReader" where
  "processKind1 fname rec mtimeMs R =
    (case map_of (fileStates R) fname of
       None \<Rightarrow> (False, R)
     | Some state \<Rightarrow>
        (case session state of
           None \<Rightarrow> (False, R)
         | Some sess \<Rightarrow>
            (case getProp rec ''k'' of
               Arr [k0, k1, k2] \<Rightarrow>
                 if k0 \<noteq> Str ''requests'' \<or> k2 \<noteq> Str ''result'' then (False, R)
                 else
                  (let v = getProp rec ''v'' in
                   if \<not> isObject v then (False, R)
                   else
                    (let usage = getProp v ''usage'' in
                     if \<not> isObject usage then (False, R)
                     else
                      (let promptTokens = (case getProp usage ''promptTokens'' of
                                             Num n \<Rightarrow> n | _ \<Rightarrow> latestPromptTokens sess);
                           completionTokens = (case getProp usage ''completionTokens'' of
                                                 Num n \<Rightarrow> n | _ \<Rightarrow> latestCompletionTokens sess);
                           sess1 = sess\<lparr> latestPromptTokens := promptTokens,
                                        latestCompletionTokens := completionTokens,
                                        promptTokenDetails := detailsOf (getProp usage ''promptTokenDetails''),
                                        lastModifiedMs := mtimeMs,
                                        turnCount := turnCount sess + 1 \<rparr>;
                           reqIdx = turnIndexOf k1;
                           sess2 = (if js_ge reqIdx (Fin 0) \<and> js_gt promptTokens (Fin 0)
                                    then sess1\<lparr> subagentCalls :=
                                           map (backfill (subagentRequestIndex state) reqIdx promptTokens)
                                               (subagentCalls sess1) \<rparr>
                                    else sess1);
                           state' = state\<lparr> session := Some sess2 \<rparr>
                       in (True, R\<lparr> fileStates := AList.update fname state' (fileStates R),
                                    chatSessions := AList.update fname sess2 (chatSessions R) \<rparr>))))
             | _ \<Rightarrow> (False, R))))"

text \<open>What a caller of \<open>getSessions()\<close> sees of a file's child calls, and what the side
  index of that file records for a call id.\<close>

definition callsOf :: "string \<Rightarrow> CopilotSessionReader \<Rightarrow> SubagentCall list" where
  "callsOf fname R = (case map_of (chatSessions R) fname of Some s \<Rightarrow> subagentCalls s | None \<Rightarrow> [])"

definition turnOfCall :: "string \<Rightarrow> CopilotSessionReader \<Rightarrow> string \<Rightarrow> jsnum option" where
  "turnOfCall fname R callId =
     (case map_of (fileStates R) fname of
        Some st \<Rightarrow> map_of (subagentRequestIndex st) callId
      | None \<Rightarrow> None)"

text \<open>Records and a reader for the closed examples: the reader has seen the header of one
  file; \<open>appendRecord\<close> is a turn-append record revealing one subagent call of turn 0,
  \<open>resultRecord n\<close> a turn-result record for turn 0 with \<open>promptTokens = n\<close>.\<close>

definition exampleChat :: VscodeChatSession where
  "exampleChat = \<lparr> chatSessionId = ''c1'', fileName = ''c1.jsonl'', creationDate = Fin 0,
      chatModelName = ''m'', modelIdentifier = ''m'', maxInputTokens = Fin 128000,
      maxOutputTokens = Fin 4096, latestPromptTokens = Fin 0, latestCompletionTokens = Fin 0,
      promptTokenDetails = [], lastModifiedMs = Fin 0, turnCount = 0, subagentCalls = [] \<rparr>"

definition exampleReader :: CopilotSessionReader where
  "exampleReader =
     \<lparr> fileStates = [(''c1.jsonl'', \<lparr> offset = 0, pendingPartial = [], session = Some exampleChat,
                                      subagentRequestIndex = [] \<rparr>)],
       chatSessions = [(''c1.jsonl'', exampleChat)] \<rparr>"

definition appendRecord :: jsval where
  "appendRecord =
     Obj [(''kind'', Num (Fin 2)),
          (''k'', Arr [Str ''requests'', Num (Fin 0), Str ''response'']),
          (''v'', Arr [Obj [(''kind'', Str ''toolInvocationSerialized''),
                            (''toolCallId'', Str ''call-1''),
                            (''toolSpecificData'',
                               Obj [(''kind'', Str ''subagent''), (''description'', Str ''explore'')])]])]"

definition resultRecord :: "rat \<Rightarrow> jsval" where
  "resultRecord n =
     Obj [(''kind'', Num (Fin 1)),
          (''k'', Arr [Str ''requests'', Num (Fin 0), Str ''result'']),
          (''v'', Obj [(''usage'', Obj [(''promptTokens'', Num (Fin n))])])]"

section \<open>Properties of FilePoller\<close>






section \<open>Properties of the agent model\<close>
























text \<open>\<open>createAgent\<close> returns exactly on the buildable records; on every other record it
  throws a \<open>TypeError\<close> (a \<open>null\<close> agent, or \<open>children\<close> that is neither an array nor
  \<open>null\<close> nor missing).\<close>

lemma sequence_sum_Inr_ex:
  "(\<exists>xs. sequence_sum rs = Inr xs) \<longleftrightarrow> (\<forall>r \<in> set rs. \<exists>x. r = Inr x)"
proof (induction rs)
  case Nil
  then show ?case by simp
next
  case (Cons r rs)
  show ?case
  proof (cases r)
    case (Inl e)
    then show ?thesis by auto
  next
    case (Inr x)
    then show ?thesis using Cons.IH by (cases "sequence_sum rs") auto
  qed
qed

lemma createAgent_returns_iff_kids:
  "(\<exists>a. createAgent E ts th d raw = Inr a) \<longleftrightarrow>
     (\<not> nullish raw \<and>
      (\<exists>cs. (if d < MAX_AGENT_DEPTH
              then (case getProp raw ''children'' of
                      Undefined \<Rightarrow> Inr []
                    | Null \<Rightarrow> Inr []
                    | Arr cs \<Rightarrow> sequence_sum (map (createAgent E ts th (d + 1)) cs)
                    | _ \<Rightarrow> Inl TypeError)
              else Inr []) = Inr cs))"
  by (subst createAgent.simps) (auto simp: Let_def split: sum.splits)

lemma createAgent_returns_iff:
  "n = MAX_AGENT_DEPTH - d \<Longrightarrow> (\<exists>a. createAgent E ts th d raw = Inr a) \<longleftrightarrow> buildable d raw"
proof (induction n arbitrary: d raw)
  case 0
  then have "\<not> d < MAX_AGENT_DEPTH" by simp
  then show ?case
    by (subst createAgent_returns_iff_kids, subst buildable.simps) simp
next
  case (Suc n)
  then have lt: "d < MAX_AGENT_DEPTH" and n: "n = MAX_AGENT_DEPTH - (d + 1)" by simp_all
  note IH = Suc.IH [OF n]
  show ?case
  proof (cases "getProp raw ''children''")
    case (Arr cs)
    have "(\<exists>xs. sequence_sum (map (createAgent E ts th (d + 1)) cs) = Inr xs)
          \<longleftrightarrow> list_all (buildable (d + 1)) cs"
      unfolding sequence_sum_Inr_ex using IH by (auto simp: list_all_iff)
    then show ?thesis using lt Arr
      by (subst createAgent_returns_iff_kids, subst buildable.simps) simp
  qed (use lt in \<open>subst createAgent_returns_iff_kids, subst buildable.simps, simp\<close>)+
qed

lemma createAgent_returns: "buildable d raw \<Longrightarrow> \<exists>a. createAgent E ts th d raw = Inr a"
  using createAgent_returns_iff [OF refl] by blast






section \<open>Properties of StateStore\<close>

lemma computeHash_nonempty: "computeHash f s \<noteq> []"
  by (simp add: computeHash_def)

lemma setState_same_fingerprint:
  assumes "sessionId a = sessionId b" "lastUpdatedAt a = lastUpdatedAt b"
    "sessionSummary a = sessionSummary b"
  shows "fired (setState f (Some b) (setState f (Some a) st)) = fired (setState f (Some a) st)"
  using assms by (simp add: setState_def computeHash_def Let_def)

text \<open>
  Claim C4, as amended. A call of \<open>setState\<close> fires at most once, and it fires exactly when
  the store is not disposed and the fingerprint of the new session (the empty string for
  \<open>null\<close>, else \<open>sessionId:lastUpdatedAt:JSON.stringify(sessionSummary)\<close>) differs from the
  fingerprint stored at the last emission. Hence a session whose fingerprint differs from
  the stored one is never treated as equal, the same input given twice makes the second
  call silent, and on a fresh store a session given twice is emitted exactly once.
\<close>

theorem setState_fires_on_fingerprint_change:
  "fired (setState f new st) =
     (if \<not> storeDisposed st
         \<and> (case new of Some s \<Rightarrow> computeHash f s | None \<Rightarrow> []) \<noteq> lastStateHash st
      then fired st @ [new] else fired st)
   \<and> length (fired (setState f new st)) \<le> length (fired st) + 1
   \<and> fired (setState f new (setState f new st)) = fired (setState f new st)
   \<and> fired (setState f (Some s) (setState f (Some s) newStateStore)) = [Some s]"
  by (simp add: setState_def Let_def newStateStore_def computeHash_nonempty split: option.splits)

theorem setState_fires_on_fingerprint_change_witness:
  "fired (setState exampleStringify (Some (exampleSession Active)) newStateStore)
     = [Some (exampleSession Active)]
   \<and> fired (setState exampleStringify (Some (exampleSession Active))
        (setState exampleStringify (Some (exampleSession Active)) newStateStore))
     = [Some (exampleSession Active)]"
  using setState_fires_on_fingerprint_change
    [of exampleStringify "Some (exampleSession Active)" newStateStore "exampleSession Active"]
  by (simp add: newStateStore_def computeHash_nonempty)

text \<open>
  Claim C4 as stated fails: two sessions that differ in content (here in their status) but
  agree on \<open>sessionId\<close>, \<open>lastUpdatedAt\<close> and summary have the same fingerprint, and the
  second one is not emitted.
\<close>

theorem setState_ignores_status_change:
  "exampleSession Active \<noteq> exampleSession Completed
   \<and> fired (setState exampleStringify (Some (exampleSession Completed))
        (setState exampleStringify (Some (exampleSession Active)) newStateStore))
     = [Some (exampleSession Active)]"
  by (simp add: setState_def Let_def newStateStore_def computeHash_def exampleSession_def)

section \<open>Properties of CopilotSessionReader\<close>

lemma fold_update_calls_new:
  "c \<in> set cs \<Longrightarrow>
     \<exists>c' \<in> set cs. toolCallId c' = toolCallId c
       \<and> map_of (fold (\<lambda>c m. AList.update (toolCallId c) c m) cs m0) (toolCallId c) = Some c'"
proof (induction cs rule: rev_induct)
  case Nil
  then show ?case by simp
next
  case (snoc x xs)
  show ?case
  proof (cases "toolCallId x = toolCallId c")
    case True
    then show ?thesis by (auto simp: update_conv')
  next
    case False
    with snoc.prems have "c \<in> set xs" by auto
    from snoc.IH [OF this] False show ?thesis by (auto simp: update_conv')
  qed
qed

lemma mergeCalls_new:
  assumes "c \<in> set new"
  shows "\<exists>c' \<in> set (mergeCalls old new). toolCallId c' = toolCallId c \<and> c' \<in> set new"
proof -
  let ?al = "fold (\<lambda>c m. AList.update (toolCallId c) c m) new
               (fold (\<lambda>c m. AList.update (toolCallId c) c m) old [])"
  from fold_update_calls_new [OF assms] obtain c' where c': "c' \<in> set new"
    "toolCallId c' = toolCallId c" "map_of ?al (toolCallId c) = Some c'" by blast
  from c'(3) have "(toolCallId c, c') \<in> set ?al" by (rule map_of_SomeD)
  then have "c' \<in> set (map snd ?al)" by force
  with c'(1,2) show ?thesis unfolding mergeCalls_def by blast
qed

lemma fold_update_index_new:
  "c \<in> set cs \<Longrightarrow>
     map_of (fold (\<lambda>call m. AList.update (toolCallId call) i m) cs m0) (toolCallId c) = Some i"
  by (induction cs rule: rev_induct) (auto simp: update_conv')

lemma extract_fields:
  "c \<in> set (extractSubagentCallsFromResponse items i t) \<Longrightarrow>
     promptTokensAtTurn c = t \<and> requestIndex c = i \<and> toolCallId c \<noteq> []"
  by (auto simp: extractSubagentCallsFromResponse_def Let_def split: if_splits)

lemma callsOf_update:
  "callsOf fname (R\<lparr> fileStates := fs, chatSessions := AList.update fname s (chatSessions R) \<rparr>)
     = subagentCalls s"
  by (simp add: callsOf_def update_conv')

lemma turnOfCall_update:
  "turnOfCall fname (R\<lparr> fileStates := AList.update fname st (fileStates R), chatSessions := cs \<rparr>) callId
     = map_of (subagentRequestIndex st) callId"
  by (simp add: turnOfCall_def update_conv')

lemma processKind2_accepts:
  assumes "map_of (fileStates R) fname = Some state" and "session state = Some sess"
    and "getProp rec2 ''k'' = Arr [Str ''requests'', k1, Str ''response'']"
    and "getProp rec2 ''v'' = Arr items"
    and "extractSubagentCallsFromResponse items (turnIndexOf k1) (Fin 0) \<noteq> []"
  shows "processKind2 fname rec2 m R =
    (True, R\<lparr> fileStates := AList.update fname
                 (state\<lparr> subagentRequestIndex :=
                           fold (\<lambda>call m. AList.update (toolCallId call) (turnIndexOf k1) m)
                             (extractSubagentCallsFromResponse items (turnIndexOf k1) (Fin 0))
                             (subagentRequestIndex state),
                         session := Some (sess\<lparr> subagentCalls := mergeCalls (subagentCalls sess)
                             (extractSubagentCallsFromResponse items (turnIndexOf k1) (Fin 0)),
                           lastModifiedMs := m \<rparr>) \<rparr>) (fileStates R),
              chatSessions := AList.update fname
                 (sess\<lparr> subagentCalls := mergeCalls (subagentCalls sess)
                             (extractSubagentCallsFromResponse items (turnIndexOf k1) (Fin 0)),
                        lastModifiedMs := m \<rparr>) (chatSessions R) \<rparr>)"
  using assms by (simp add: processKind2_def Let_def)

lemma processKind1_accepts:
  assumes "map_of (fileStates R) fname = Some state" and "session state = Some sess"
    and "getProp rec1 ''k'' = Arr [Str ''requests'', k1, Str ''result'']"
    and "isObject (getProp rec1 ''v'')"
    and "isObject (getProp (getProp rec1 ''v'') ''usage'')"
    and "getProp (getProp (getProp rec1 ''v'') ''usage'') ''promptTokens'' = Num p"
  shows "callsOf fname (snd (processKind1 fname rec1 m R)) =
           (if js_ge (turnIndexOf k1) (Fin 0) \<and> js_gt p (Fin 0)
            then map (backfill (subagentRequestIndex state) (turnIndexOf k1) p) (subagentCalls sess)
            else subagentCalls sess)"
    and "turnOfCall fname (snd (processKind1 fname rec1 m R)) callId
           = map_of (subagentRequestIndex state) callId"
    and "fst (processKind1 fname rec1 m R)"
  using assms
  by (simp_all add: processKind1_def Let_def callsOf_def turnOfCall_def update_conv')

lemma backfill_effect:
  assumes "js_gt p (Fin 0)"
  shows "toolCallId (backfill idx i p c) = toolCallId c"
    and "map_of idx (toolCallId c) = Some j \<Longrightarrow> js_eq j i \<Longrightarrow> promptTokensAtTurn (backfill idx i p c) = p"
    and "map_of idx (toolCallId c) = Some j \<Longrightarrow> \<not> js_eq j i \<Longrightarrow> backfill idx i p c = c"
    and "map_of idx (toolCallId c) = None \<Longrightarrow> backfill idx i p c = c"
  using assms by (auto simp: backfill_def js_eq_def)

lemma processKind2_view:
  assumes "map_of (fileStates R) fname = Some state" and "session state = Some sess"
    and "getProp rec2 ''k'' = Arr [Str ''requests'', k1, Str ''response'']"
    and "getProp rec2 ''v'' = Arr items"
    and "extractSubagentCallsFromResponse items (turnIndexOf k1) (Fin 0) \<noteq> []"
  shows "\<exists>state2 sess2.
      map_of (fileStates (snd (processKind2 fname rec2 m R))) fname = Some state2
    \<and> session state2 = Some sess2
    \<and> subagentCalls sess2 = mergeCalls (subagentCalls sess)
          (extractSubagentCallsFromResponse items (turnIndexOf k1) (Fin 0))
    \<and> subagentRequestIndex state2 =
          fold (\<lambda>call m. AList.update (toolCallId call) (turnIndexOf k1) m)
            (extractSubagentCallsFromResponse items (turnIndexOf k1) (Fin 0))
            (subagentRequestIndex state)
    \<and> callsOf fname (snd (processKind2 fname rec2 m R)) = subagentCalls sess2
    \<and> (\<forall>callId. turnOfCall fname (snd (processKind2 fname rec2 m R)) callId
          = map_of (subagentRequestIndex state2) callId)"
  by (simp add: processKind2_accepts [OF assms] callsOf_def turnOfCall_def update_conv')

text \<open>
  Claim C3, as amended. Let a file have a session, let a turn-append record for a turn index
  reveal a child call, and let a turn-result record for the same turn index follow with a
  numeric \<open>promptTokens\<close>. After the turn-append record the session shows the call with
  \<open>promptTokensAtTurn = 0\<close> and the side index records the call against the turn index.
  After the turn-result record, if the turn index is at least 0 and \<open>promptTokens\<close> is
  greater than 0, the call and every other call that the side index records against that
  turn index show \<open>promptTokens\<close>; otherwise the child calls are left as they were.
\<close>

theorem backfill_on_turn_result:
  assumes "map_of (fileStates R) fname = Some state" and "session state = Some sess"
    and "getProp rec2 ''k'' = Arr [Str ''requests'', k1, Str ''response'']"
    and "getProp rec2 ''v'' = Arr items"
    and "c \<in> set (extractSubagentCallsFromResponse items (turnIndexOf k1) (Fin 0))"
    and "getProp rec1 ''k'' = Arr [Str ''requests'', k1, Str ''result'']"
    and "isObject (getProp rec1 ''v'')"
    and "isObject (getProp (getProp rec1 ''v'') ''usage'')"
    and "getProp (getProp (getProp rec1 ''v'') ''usage'') ''promptTokens'' = Num p"
  shows
   "(\<exists>c' \<in> set (callsOf fname (snd (processKind2 fname rec2 m2 R))).
        toolCallId c' = toolCallId c \<and> promptTokensAtTurn c' = Fin 0)
    \<and> turnOfCall fname (snd (processKind2 fname rec2 m2 R)) (toolCallId c) = Some (turnIndexOf k1)
    \<and> (js_ge (turnIndexOf k1) (Fin 0) \<and> js_gt p (Fin 0) \<longrightarrow>
          (\<exists>c' \<in> set (callsOf fname
                (snd (processKind1 fname rec1 m1 (snd (processKind2 fname rec2 m2 R))))).
              toolCallId c' = toolCallId c \<and> promptTokensAtTurn c' = p)
        \<and> (\<forall>c' \<in> set (callsOf fname
                (snd (processKind1 fname rec1 m1 (snd (processKind2 fname rec2 m2 R))))).
             \<forall>j. turnOfCall fname
                   (snd (processKind1 fname rec1 m1 (snd (processKind2 fname rec2 m2 R))))
                   (toolCallId c') = Some j \<and> js_eq j (turnIndexOf k1)
                 \<longrightarrow> promptTokensAtTurn c' = p))
    \<and> (\<not> (js_ge (turnIndexOf k1) (Fin 0) \<and> js_gt p (Fin 0)) \<longrightarrow>
          callsOf fname (snd (processKind1 fname rec1 m1 (snd (processKind2 fname rec2 m2 R))))
          = callsOf fname (snd (processKind2 fname rec2 m2 R)))"
proof -
  let ?i = "turnIndexOf k1"
  let ?new = "extractSubagentCallsFromResponse items ?i (Fin 0)"
  let ?R2 = "snd (processKind2 fname rec2 m2 R)"
  let ?R1 = "snd (processKind1 fname rec1 m1 ?R2)"
  from assms(5) have ne: "?new \<noteq> []" by auto
  from processKind2_view [OF assms(1-4) ne, of m2] obtain state2 sess2 where
    fs2: "map_of (fileStates ?R2) fname = Some state2" and ss2: "session state2 = Some sess2"
    and calls2: "subagentCalls sess2 = mergeCalls (subagentCalls sess) ?new"
    and idx2: "subagentRequestIndex state2 =
          fold (\<lambda>call m. AList.update (toolCallId call) ?i m) ?new (subagentRequestIndex state)"
    and view2: "callsOf fname ?R2 = subagentCalls sess2"
    and turn2: "\<And>callId. turnOfCall fname ?R2 callId = map_of (subagentRequestIndex state2) callId"
    by blast
  from mergeCalls_new [OF assms(5), of "subagentCalls sess"] obtain c2 where
    c2: "c2 \<in> set (subagentCalls sess2)" "toolCallId c2 = toolCallId c" "c2 \<in> set ?new"
    unfolding calls2 by blast
  from extract_fields [OF c2(3)] have zero: "promptTokensAtTurn c2 = Fin 0" by simp
  have recorded: "map_of (subagentRequestIndex state2) (toolCallId c) = Some ?i"
    unfolding idx2 by (rule fold_update_index_new [OF assms(5)])
  have A: "\<exists>c' \<in> set (callsOf fname ?R2). toolCallId c' = toolCallId c \<and> promptTokensAtTurn c' = Fin 0"
    unfolding view2 using c2(1,2) zero by blast
  have B: "turnOfCall fname ?R2 (toolCallId c) = Some ?i"
    unfolding turn2 by (rule recorded)
  note k1v = processKind1_accepts [OF fs2 ss2 assms(6-9), of m1]
  have C: "(\<exists>c' \<in> set (callsOf fname ?R1). toolCallId c' = toolCallId c \<and> promptTokensAtTurn c' = p)
        \<and> (\<forall>c' \<in> set (callsOf fname ?R1).
             \<forall>j. turnOfCall fname ?R1 (toolCallId c') = Some j \<and> js_eq j ?i
                 \<longrightarrow> promptTokensAtTurn c' = p)"
    if g: "js_ge ?i (Fin 0) \<and> js_gt p (Fin 0)"
  proof -
    from g have pos: "js_gt p (Fin 0)" by simp
    have ii: "js_eq ?i ?i" using g by (cases ?i) (simp_all add: js_eq_def js_ge_def)
    from g have calls1: "callsOf fname ?R1
        = map (backfill (subagentRequestIndex state2) ?i p) (subagentCalls sess2)"
      by (simp add: k1v(1))
    let ?c1 = "backfill (subagentRequestIndex state2) ?i p c2"
    have "?c1 \<in> set (callsOf fname ?R1)" unfolding calls1 using c2(1) by simp
    moreover have "toolCallId ?c1 = toolCallId c"
      using backfill_effect(1) [OF pos] c2(2) by simp
    moreover have "promptTokensAtTurn ?c1 = p"
      using backfill_effect(2) [OF pos, of "subagentRequestIndex state2" c2 ?i ?i] recorded ii c2(2)
      by simp
    ultimately have one: "\<exists>c' \<in> set (callsOf fname ?R1).
        toolCallId c' = toolCallId c \<and> promptTokensAtTurn c' = p" by blast
    have all: "promptTokensAtTurn c' = p"
      if "c' \<in> set (callsOf fname ?R1)"
        and "turnOfCall fname ?R1 (toolCallId c') = Some j \<and> js_eq j ?i" for c' j
    proof -
      from that(1) obtain c0 where c0: "c0 \<in> set (subagentCalls sess2)"
        "c' = backfill (subagentRequestIndex state2) ?i p c0"
        unfolding calls1 by auto
      have "toolCallId c' = toolCallId c0" using backfill_effect(1) [OF pos] c0(2) by simp
      with that(2) have "map_of (subagentRequestIndex state2) (toolCallId c0) = Some j" "js_eq j ?i"
        by (simp_all add: k1v(2))
      from backfill_effect(2) [OF pos this] show ?thesis by (simp add: c0(2))
    qed
    from one all show ?thesis by blast
  qed
  have D: "callsOf fname ?R1 = callsOf fname ?R2"
    if "\<not> (js_ge ?i (Fin 0) \<and> js_gt p (Fin 0))"
    using that by (auto simp: k1v(1) view2)
  from A B C D show ?thesis by blast
qed

theorem backfill_on_turn_result_witness:
  "map (\<lambda>c. (toolCallId c, promptTokensAtTurn c))
      (callsOf ''c1.jsonl'' (snd (processKind2 ''c1.jsonl'' appendRecord (Fin 1) exampleReader)))
     = [(''call-1'', Fin 0)]
   \<and> turnOfCall ''c1.jsonl'' (snd (processKind2 ''c1.jsonl'' appendRecord (Fin 1) exampleReader))
        ''call-1'' = Some (Fin 0)
   \<and> (\<exists>c' \<in> set (callsOf ''c1.jsonl''
          (snd (processKind1 ''c1.jsonl'' (resultRecord 500) (Fin 2)
            (snd (processKind2 ''c1.jsonl'' appendRecord (Fin 1) exampleReader))))).
         toolCallId c' = ''call-1'' \<and> promptTokensAtTurn c' = Fin 500)"
proof -
  let ?c = "\<lparr> toolCallId = ''call-1'', description = ''explore'', modelName = [],
      isComplete = False, requestIndex = Fin 0, promptTokensAtTurn = Fin 0 \<rparr>"
  let ?items = "[Obj [(''kind'', Str ''toolInvocationSerialized''), (''toolCallId'', Str ''call-1''),
       (''toolSpecificData'', Obj [(''kind'', Str ''subagent''), (''description'', Str ''explore'')])]]"
  let ?st = "\<lparr> offset = 0, pendingPartial = [], session = Some exampleChat,
      subagentRequestIndex = [] \<rparr>"
  have h1: "map_of (fileStates exampleReader) ''c1.jsonl'' = Some ?st"
    by (simp add: exampleReader_def)
  have h2: "session ?st = Some exampleChat" by simp
  have h3: "getProp appendRecord ''k'' = Arr [Str ''requests'', Num (Fin 0), Str ''response'']"
    by (simp add: appendRecord_def getProp_def)
  have h4: "getProp appendRecord ''v'' = Arr ?items"
    by (simp add: appendRecord_def getProp_def)
  have h5: "?c \<in> set (extractSubagentCallsFromResponse ?items (turnIndexOf (Num (Fin 0))) (Fin 0))"
    by (simp add: extractSubagentCallsFromResponse_def turnIndexOf_def getProp_def isObject_def
        stringOrEmpty_def Let_def)
  have h6: "getProp (resultRecord 500) ''k'' = Arr [Str ''requests'', Num (Fin 0), Str ''result'']"
    by (simp add: resultRecord_def getProp_def)
  have h7: "isObject (getProp (resultRecord 500) ''v'')"
    by (simp add: resultRecord_def getProp_def isObject_def)
  have h8: "isObject (getProp (getProp (resultRecord 500) ''v'') ''usage'')"
    by (simp add: resultRecord_def getProp_def isObject_def)
  have h9: "getProp (getProp (getProp (resultRecord 500) ''v'') ''usage'') ''promptTokens'' = Num (Fin 500)"
    by (simp add: resultRecord_def getProp_def)
  have g: "js_ge (turnIndexOf (Num (Fin 0))) (Fin 0) \<and> js_gt (Fin 500) (Fin 0)"
    by (simp add: turnIndexOf_def js_ge_def js_gt_def)
  have e1: "map (\<lambda>c. (toolCallId c, promptTokensAtTurn c))
      (callsOf ''c1.jsonl'' (snd (processKind2 ''c1.jsonl'' appendRecord (Fin 1) exampleReader)))
     = [(''call-1'', Fin 0)]"
    by code_simp
  from backfill_on_turn_result [OF h1 h2 h3 h4 h5 h6 h7 h8 h9, of "Fin 1" "Fin 2"] g e1
  show ?thesis by (simp add: turnIndexOf_def)
qed

text \<open>
  Claim C3 as stated fails when the turn-result record carries \<open>promptTokens = 0\<close>: after a
  turn-append record and a turn-result record with \<open>promptTokens = 500\<close> for turn 0, a
  further turn-result record for turn 0 with \<open>promptTokens = 0\<close> leaves the child call,
  which the side index records against turn 0, at 500.
\<close>

theorem backfill_skipped_for_zero_tokens:
  "map promptTokensAtTurn
     (callsOf ''c1.jsonl''
        (snd (processKind1 ''c1.jsonl'' (resultRecord 0) (Fin 3)
          (snd (processKind1 ''c1.jsonl'' (resultRecord 500) (Fin 2)
            (snd (processKind2 ''c1.jsonl'' appendRecord (Fin 1) exampleReader)))))))
     = [Fin 500]
   \<and> turnOfCall ''c1.jsonl''
        (snd (processKind1 ''c1.jsonl'' (resultRecord 0) (Fin 3)
          (snd (processKind1 ''c1.jsonl'' (resultRecord 500) (Fin 2)
            (snd (processKind2 ''c1.jsonl'' appendRecord (Fin 1) exampleReader))))))
        ''call-1'' = Some (Fin 0)
   \<and> fst (processKind1 ''c1.jsonl'' (resultRecord 0) (Fin 3)
          (snd (processKind1 ''c1.jsonl'' (resultRecord 500) (Fin 2)
            (snd (processKind2 ''c1.jsonl'' appendRecord (Fin 1) exampleReader)))))"
  by code_simp

section \<open>Properties of JsonlParser\<close>

subsection \<open>Structural validation\<close>

lemma isValidAgentShape_too_deep: "MAX_AGENT_DEPTH < d \<Longrightarrow> \<not> isValidAgentShape obj d"
  by (subst isValidAgentShape.simps) simp

lemma isValidAgentShape_children:
  assumes "isValidAgentShape obj d"
  shows "list_all (\<lambda>child. isValidAgentShape child (d + 1)) (rawChildren obj)"
proof (cases "getProp obj ''children''")
  case (Arr cs)
  with assms show ?thesis
    by (subst (asm) isValidAgentShape.simps) (simp add: rawChildren_def split: if_splits)
qed (simp_all add: rawChildren_def)

lemma rawAtDepth_Nil: "rawAtDepth n [] = []"
  by (induction n) simp_all

lemma valid_shapes_bounded_depth:
  "list_all (\<lambda>r. isValidAgentShape r d) rs \<Longrightarrow> MAX_AGENT_DEPTH < d + n \<Longrightarrow> rawAtDepth n rs = []"
proof (induction n arbitrary: d rs)
  case 0
  then have "\<forall>r \<in> set rs. False"
    using isValidAgentShape_too_deep [of d] by (auto simp: list_all_iff)
  then show ?case by (cases rs) auto
next
  case (Suc n)
  have "list_all (\<lambda>r. isValidAgentShape r (d + 1)) (concat (map rawChildren rs))"
    using Suc.prems(1) isValidAgentShape_children [of _ d] by (auto simp: list_all_iff)
  moreover have "MAX_AGENT_DEPTH < (d + 1) + n" using Suc.prems(2) by simp
  ultimately have "rawAtDepth n (concat (map rawChildren rs)) = []" by (rule Suc.IH)
  then show ?case by simp
qed

lemma isValidEntry_cases:
  "isValidEntry obj p =
     (if fst (isValidEntry obj p) then (True, p)
      else (False, p\<lparr>malformedLineCount := malformedLineCount p + 1\<rparr>))"
  by (simp add: isValidEntry_def Let_def)

lemma isValidEntry_agents:
  "fst (isValidEntry obj p) \<Longrightarrow>
     list_all (\<lambda>agent. isValidAgentShape agent 0) (arrayItems (getProp obj ''agents''))"
  by (simp add: isValidEntry_def Let_def split: if_splits)

text \<open>
  Claim C8. A parsed line whose \<open>agents\<close> array holds, along \<open>children\<close> arrays, an agent
  at a depth greater than \<open>MAX_AGENT_DEPTH\<close> is rejected as a whole: \<open>parseLine\<close> leaves by
  the invalid-entry exit with the malformed-line counter incremented by one and everything
  else in the parser, the sessions among it, unchanged. The validation itself answers
  \<open>false\<close> at any depth beyond \<open>MAX_AGENT_DEPTH\<close> without looking at the value, so it
  never recurses further.
\<close>

theorem too_deep_line_rejected:
  assumes "MAX_AGENT_DEPTH < n"
    and "rawAtDepth n (arrayItems (getProp parsed ''agents'')) \<noteq> []"
  shows "parseLine E (Some parsed) p
           = (InvalidEntry, p\<lparr>malformedLineCount := malformedLineCount p + 1\<rparr>)
       \<and> sessions (snd (parseLine E (Some parsed) p)) = sessions p
       \<and> (\<forall>obj d. MAX_AGENT_DEPTH < d \<longrightarrow> \<not> isValidAgentShape obj d)"
proof -
  have "\<not> fst (isValidEntry parsed p)"
  proof
    assume "fst (isValidEntry parsed p)"
    from isValidEntry_agents [OF this] assms(1)
    have "rawAtDepth n (arrayItems (getProp parsed ''agents'')) = []"
      using valid_shapes_bounded_depth [of 0 _ n] by simp
    with assms(2) show False by contradiction
  qed
  then have "isValidEntry parsed p = (False, p\<lparr>malformedLineCount := malformedLineCount p + 1\<rparr>)"
    using isValidEntry_cases [of parsed p] by simp
  then have "parseLine E (Some parsed) p
           = (InvalidEntry, p\<lparr>malformedLineCount := malformedLineCount p + 1\<rparr>)"
    by (simp add: parseLine_def)
  then show ?thesis using isValidAgentShape_too_deep by simp
qed

theorem too_deep_line_rejected_witness:
  "MAX_AGENT_DEPTH < 11
   \<and> rawAtDepth 11 (arrayItems (getProp (chainLine 11) ''agents'')) \<noteq> []
   \<and> parseLine exampleEngine (Some (chainLine 11)) (newParser DEFAULT_THRESHOLDS)
       = (InvalidEntry, (newParser DEFAULT_THRESHOLDS)\<lparr>malformedLineCount := 1\<rparr>)
   \<and> fst (parseLine exampleEngine (Some (chainLine 10)) (newParser DEFAULT_THRESHOLDS)) = Accepted"
proof -
  have d: "MAX_AGENT_DEPTH < 11" by (simp add: MAX_AGENT_DEPTH_def)
  have r: "rawAtDepth 11 (arrayItems (getProp (chainLine 11) ''agents'')) \<noteq> []"
    by code_simp
  have a: "fst (parseLine exampleEngine (Some (chainLine 10)) (newParser DEFAULT_THRESHOLDS)) = Accepted"
    by code_simp
  from too_deep_line_rejected [OF d r, of exampleEngine "newParser DEFAULT_THRESHOLDS"] d r a
  show ?thesis by (simp add: newParser_def)
qed

subsection \<open>The exits of parseLine\<close>

lemma parseLine_duplicate:
  assumes "fst (isValidEntry parsed p)"
    and "\<not> js_gt (entry_v (asRawLogEntry parsed)) SUPPORTED_VERSION"
    and "dedupKeyOf (asRawLogEntry parsed) \<in> set (seenKeys p)"
  shows "parseLine E (Some parsed) p = (Duplicate, p)"
  using assms isValidEntry_cases [of parsed p] by (simp add: parseLine_def Let_def)

lemma parseLine_unsupported:
  assumes "fst (isValidEntry parsed p)"
    and "js_gt (entry_v (asRawLogEntry parsed)) SUPPORTED_VERSION"
  shows "parseLine E (Some parsed) p = (UnsupportedVersion, p)"
  using assms isValidEntry_cases [of parsed p] by (simp add: parseLine_def Let_def)

text \<open>The parser after the dedup step of a line that is not a duplicate.\<close>

lemma parseLine_fresh:
  assumes "fst (isValidEntry parsed p)"
    and "\<not> js_gt (entry_v (asRawLogEntry parsed)) SUPPORTED_VERSION"
    and "dedupKeyOf (asRawLogEntry parsed) \<notin> set (seenKeys p)"
  shows "parseLine E (Some parsed) p =
    (let entry = asRawLogEntry parsed;
         p2 = p\<lparr>seenKeys := pruneKeys (seenKeys p @ [dedupKeyOf entry])\<rparr>
     in if (case map_of (latestTsPerSession p) (entry_sessionId entry) of
              Some lt \<Rightarrow> lt \<noteq> [] \<and> entry_ts entry < lt
            | None \<Rightarrow> False)
        then (OutOfOrder, p2)
        else
         (let p3 = p2\<lparr>latestTsPerSession :=
                     AList.update (entry_sessionId entry) (entry_ts entry) (latestTsPerSession p)\<rparr>
          in case createSession E entry (thresholds p) of
               Inl e \<Rightarrow> (Threw e, p3)
             | Inr fresh \<Rightarrow>
                (let stored = (case map_of (sessions p) (entry_sessionId entry) of
                                 Some ex \<Rightarrow> fresh\<lparr>startedAt := startedAt ex\<rparr>
                               | None \<Rightarrow> fresh);
                     p4 = p3\<lparr>sessions := AList.update (entry_sessionId entry) stored (sessions p)\<rparr>
                 in (Accepted,
                     if length (sessions p4) > MAX_SESSIONS
                     then evictOldestSessions E p4 else p4))))"
  using assms isValidEntry_cases [of parsed p]
  by (cases "createSession E (asRawLogEntry parsed) (thresholds p)")
     (simp_all add: parseLine_def Let_def)

lemma last_pruneKeys: "k \<in> set (pruneKeys (ks @ [k]))"
proof (cases "length (ks @ [k]) > MAX_DEDUP_KEYS")
  case True
  then have "MAX_DEDUP_KEYS div 2 \<le> length ks" by (simp add: MAX_DEDUP_KEYS_def)
  then show ?thesis using True by (simp add: pruneKeys_def)
next
  case False
  then show ?thesis by (simp add: pruneKeys_def)
qed

subsection \<open>Eviction\<close>

lemma map_of_filter_keys:
  "map_of (filter (\<lambda>(k, _). k \<notin> D) al) k = (if k \<in> D then None else map_of al k)"
  by (induction al) auto

lemma filter_delete_keys:
  "filter (\<lambda>(k, _). k \<notin> D) (AList.delete sid al) = filter (\<lambda>(k, _). k \<notin> insert sid D) al"
  by (induction al) auto

lemma evict_fold:
  "fold (\<lambda>(sid, _) q. q\<lparr> sessions := AList.delete sid (sessions q),
                          latestTsPerSession := AList.delete sid (latestTsPerSession q) \<rparr>) xs q
   = q\<lparr> sessions := filter (\<lambda>(k, _). k \<notin> fst ` set xs) (sessions q),
        latestTsPerSession := filter (\<lambda>(k, _). k \<notin> fst ` set xs) (latestTsPerSession q) \<rparr>"
proof (induction xs arbitrary: q)
  case Nil
  then show ?case by simp
next
  case (Cons x xs)
  obtain sid v where x: "x = (sid, v)" by (cases x)
  show ?case by (simp add: Cons.IH x filter_delete_keys)
qed

lemma length_insert_by: "length (insert_by cmp x ys) = Suc (length ys)"
  by (induction ys) auto

lemma length_js_sort: "length (js_sort cmp xs) = length xs"
  by (induction xs) (auto simp: js_sort_def length_insert_by)

lemma set_insert_by: "set (insert_by cmp x ys) = insert x (set ys)"
  by (induction ys) auto

lemma distinct_insert_by: "distinct (insert_by cmp x ys) \<longleftrightarrow> x \<notin> set ys \<and> distinct ys"
  by (induction ys) (auto simp: set_insert_by)

lemma set_js_sort: "set (js_sort cmp xs) = set xs"
  by (induction xs) (auto simp: js_sort_def set_insert_by)

lemma distinct_js_sort: "distinct xs \<Longrightarrow> distinct (js_sort cmp xs)"
proof (induction xs)
  case Nil
  then show ?case by (simp add: js_sort_def)
next
  case (Cons x xs)
  then have "distinct (js_sort cmp xs)" "x \<notin> set (js_sort cmp xs)"
    by (simp_all add: set_js_sort)
  then show ?case using distinct_insert_by [of cmp x "js_sort cmp xs"]
    by (simp add: js_sort_def)
qed

lemma evict_view:
  "evictOldestSessions E p
   = p\<lparr> sessions := filter (\<lambda>(k, _). k \<notin> evictedIds E p) (sessions p),
        latestTsPerSession := filter (\<lambda>(k, _). k \<notin> evictedIds E p) (latestTsPerSession p) \<rparr>"
  by (simp add: evictOldestSessions_def Let_def evict_fold evictedIds_def length_js_sort)

lemma seenKeys_evict: "seenKeys (evictOldestSessions E p) = seenKeys p"
proof -
  have "seenKeys (fold (\<lambda>(sid, _) q. q\<lparr> sessions := AList.delete sid (sessions q),
                        latestTsPerSession := AList.delete sid (latestTsPerSession q) \<rparr>) xs q)
        = seenKeys q" for xs :: "(string \<times> AgentSession) list" and q
    by (induction xs arbitrary: q) (auto split: prod.splits)
  then show ?thesis by (simp add: evictOldestSessions_def Let_def)
qed

lemma parseLine_key_seen:
  assumes "fst (isValidEntry parsed p)"
    and "\<not> js_gt (entry_v (asRawLogEntry parsed)) SUPPORTED_VERSION"
  shows "dedupKeyOf (asRawLogEntry parsed) \<in> set (seenKeys (snd (parseLine E (Some parsed) p)))"
proof (cases "dedupKeyOf (asRawLogEntry parsed) \<in> set (seenKeys p)")
  case True
  with parseLine_duplicate [OF assms True] show ?thesis by simp
next
  case False
  show ?thesis
    unfolding parseLine_fresh [OF assms False]
    by (simp add: Let_def last_pruneKeys seenKeys_evict split: sum.splits option.splits)
qed

lemma filter_keys_eq_filter_entries:
  assumes "distinct (map fst S)" and "set R \<subseteq> set S"
  shows "filter (\<lambda>(k, _). k \<notin> fst ` set R) S = filter (\<lambda>x. x \<notin> set R) S"
proof (rule filter_cong [OF refl])
  fix x assume x: "x \<in> set S"
  obtain k v where kv: "x = (k, v)" by (cases x)
  have "k \<in> fst ` set R \<longleftrightarrow> (k, v) \<in> set R"
  proof
    assume "k \<in> fst ` set R"
    then obtain v' where r: "(k, v') \<in> set R" by auto
    with assms(2) have "(k, v') \<in> set S" by auto
    with x kv assms(1) have "v' = v" by (metis eq_key_imp_eq_value)
    with r show "(k, v) \<in> set R" by simp
  next
    assume "(k, v) \<in> set R"
    then show "k \<in> fst ` set R" by force
  qed
  then show "(case x of (k, _) \<Rightarrow> k \<notin> fst ` set R) = (x \<notin> set R)" by (simp add: kv)
qed

lemma length_filter_removed:
  assumes "distinct S" and "distinct R" and "set R \<subseteq> set S"
  shows "length (filter (\<lambda>x. x \<notin> set R) S) = length S - length R"
proof -
  have "length (filter (\<lambda>x. x \<notin> set R) S) = card ({x. x \<notin> set R} \<inter> set S)"
    using assms(1) by (rule distinct_length_filter)
  also have "{x. x \<notin> set R} \<inter> set S = set S - set R" by auto
  also have "card (set S - set R) = card (set S) - card (set R)"
    using assms(3) by (simp add: card_Diff_subset)
  also have "\<dots> = length S - length R"
    using assms(1,2) by (simp add: distinct_card)
  finally show ?thesis .
qed

lemma evict_to_bound:
  assumes "distinct (map fst (sessions p))" and "MAX_SESSIONS < length (sessions p)"
  shows "length (sessions (evictOldestSessions E p)) = MAX_SESSIONS"
proof -
  let ?S = "sessions p"
  let ?sorted = "js_sort (\<lambda>a b. localeCompare E (lastUpdatedAt (snd a)) (lastUpdatedAt (snd b))) ?S"
  let ?R = "take (length ?S - MAX_SESSIONS) ?sorted"
  have dS: "distinct ?S" using assms(1) by (simp add: distinct_map)
  have ids: "evictedIds E p = fst ` set ?R"
    using assms(2) by (simp add: evictedIds_def slice0_def nat_diff_distrib')
  have sub: "set ?R \<subseteq> set ?S" using set_take_subset [of _ ?sorted] by (simp add: set_js_sort)
  have dR: "distinct ?R" using dS by (simp add: distinct_js_sort)
  have lR: "length ?R = length ?S - MAX_SESSIONS" by (simp add: length_js_sort)
  have "sessions (evictOldestSessions E p) = filter (\<lambda>x. x \<notin> set ?R) ?S"
    by (subst evict_view) (simp add: ids filter_keys_eq_filter_entries [OF assms(1) sub])
  then have "length (sessions (evictOldestSessions E p)) = length ?S - length ?R"
    using length_filter_removed [OF dS dR sub] by simp
  with lR assms(2) show ?thesis by simp
qed

subsection \<open>What a call changes\<close>

lemma createSession_fields:
  assumes "createSession E entry th = Inr s"
  shows "sessionId s = entry_sessionId entry" "startedAt s = entry_ts entry"
    "lastUpdatedAt s = entry_ts entry"
  using assms by (auto simp: createSession_def Let_def split: sum.splits)

lemma length_update_present:
  "map_of al k = Some v \<Longrightarrow> length (AList.update k v' al) = length al"
  by (induction al) (auto split: if_splits)

lemma length_update_le: "length (AList.update k v al) \<le> Suc (length al)"
  by (induction al) auto

lemma parseLine_sessions_cases:
  "(sessions (snd (parseLine E l p)) = sessions p
      \<and> fst (parseLine E l p) \<noteq> Accepted
      \<and> (latestTsPerSession (snd (parseLine E l p)) = latestTsPerSession p
          \<or> (\<exists>parsed. l = Some parsed \<and> fst (parseLine E l p) = Threw TypeError
               \<and> \<not> (case map_of (latestTsPerSession p) (entry_sessionId (asRawLogEntry parsed)) of
                       Some lt \<Rightarrow> lt \<noteq> [] \<and> entry_ts (asRawLogEntry parsed) < lt | None \<Rightarrow> False)
               \<and> latestTsPerSession (snd (parseLine E l p))
                   = AList.update (entry_sessionId (asRawLogEntry parsed))
                       (entry_ts (asRawLogEntry parsed)) (latestTsPerSession p))))
   \<or> (\<exists>parsed fresh stored D.
         l = Some parsed \<and> fst (parseLine E l p) = Accepted
       \<and> createSession E (asRawLogEntry parsed) (thresholds p) = Inr fresh
       \<and> stored = (case map_of (sessions p) (entry_sessionId (asRawLogEntry parsed)) of
                     Some ex \<Rightarrow> fresh\<lparr>startedAt := startedAt ex\<rparr> | None \<Rightarrow> fresh)
       \<and> sessions (snd (parseLine E l p))
           = filter (\<lambda>(k, _). k \<notin> D)
               (AList.update (entry_sessionId (asRawLogEntry parsed)) stored (sessions p))
       \<and> latestTsPerSession (snd (parseLine E l p))
           = filter (\<lambda>(k, _). k \<notin> D)
               (AList.update (entry_sessionId (asRawLogEntry parsed))
                  (entry_ts (asRawLogEntry parsed)) (latestTsPerSession p)))"
proof (cases l)
  case None
  then show ?thesis by (simp add: parseLine_def)
next
  case (Some parsed)
  show ?thesis
  proof (cases "fst (isValidEntry parsed p)")
    case False
    then show ?thesis using isValidEntry_cases [of parsed p] Some by (simp add: parseLine_def)
  next
    case valid: True
    show ?thesis
    proof (cases "js_gt (entry_v (asRawLogEntry parsed)) SUPPORTED_VERSION")
      case True
      from parseLine_unsupported [OF valid True] Some show ?thesis by simp
    next
      case ver: False
      show ?thesis
      proof (cases "dedupKeyOf (asRawLogEntry parsed) \<in> set (seenKeys p)")
        case True
        from parseLine_duplicate [OF valid ver True] Some show ?thesis by simp
      next
        case False
        note step = parseLine_fresh [OF valid ver False, of E]
        let ?entry = "asRawLogEntry parsed"
        show ?thesis
        proof (cases "case map_of (latestTsPerSession p) (entry_sessionId ?entry) of
                        Some lt \<Rightarrow> lt \<noteq> [] \<and> entry_ts ?entry < lt | None \<Rightarrow> False")
          case True
          then show ?thesis unfolding Some step by (simp add: Let_def)
        next
          case ooo: False
          show ?thesis
          proof (cases "createSession E ?entry (thresholds p)")
            case (Inl e)
            then show ?thesis unfolding Some step using ooo by (cases e) (simp add: Let_def)
          next
            case (Inr fresh)
            let ?stored = "case map_of (sessions p) (entry_sessionId ?entry) of
                     Some ex \<Rightarrow> fresh\<lparr>startedAt := startedAt ex\<rparr> | None \<Rightarrow> fresh"
            let ?p4 = "p\<lparr>seenKeys := pruneKeys (seenKeys p @ [dedupKeyOf ?entry]),
                        latestTsPerSession := AList.update (entry_sessionId ?entry) (entry_ts ?entry)
                                                (latestTsPerSession p),
                        sessions := AList.update (entry_sessionId ?entry) ?stored (sessions p)\<rparr>"
            have res: "parseLine E (Some parsed) p =
                (Accepted, if length (sessions ?p4) > MAX_SESSIONS
                           then evictOldestSessions E ?p4 else ?p4)"
              unfolding step using ooo Inr by (simp add: Let_def)
            define D where "D = (if length (sessions ?p4) > MAX_SESSIONS
                                 then evictedIds E ?p4 else {})"
            have "sessions (snd (parseLine E (Some parsed) p))
                    = filter (\<lambda>(k, _). k \<notin> D) (sessions ?p4)"
              and "latestTsPerSession (snd (parseLine E (Some parsed) p))
                    = filter (\<lambda>(k, _). k \<notin> D) (latestTsPerSession ?p4)"
              unfolding res D_def by (simp_all add: evict_view [of E ?p4])
            then show ?thesis unfolding Some using res Inr
              by (intro disjI2 exI [of _ parsed] exI [of _ fresh] exI [of _ ?stored] exI [of _ D])
                 simp
          qed
        qed
      qed
    qed
  qed
qed


subsection \<open>Invariants of the reachable states\<close>

lemma sessions_bounded_step:
  assumes "distinct (map fst (sessions p))" and "length (sessions p) \<le> MAX_SESSIONS"
  shows "distinct (map fst (sessions (snd (parseLine E l p))))
       \<and> length (sessions (snd (parseLine E l p))) \<le> MAX_SESSIONS"
proof -
  consider (same) "sessions (snd (parseLine E l p)) = sessions p"
    | (accepted) parsed fresh stored D where "l = Some parsed" "fst (parseLine E l p) = Accepted"
        "createSession E (asRawLogEntry parsed) (thresholds p) = Inr fresh"
        "stored = (case map_of (sessions p) (entry_sessionId (asRawLogEntry parsed)) of
                     Some ex \<Rightarrow> fresh\<lparr>startedAt := startedAt ex\<rparr> | None \<Rightarrow> fresh)"
        "sessions (snd (parseLine E l p))
           = filter (\<lambda>(k, _). k \<notin> D)
               (AList.update (entry_sessionId (asRawLogEntry parsed)) stored (sessions p))"
    using parseLine_sessions_cases [of E l p] by blast
  then show ?thesis
  proof cases
  case same
  with assms show ?thesis by simp
next
  case (accepted parsed fresh stored D)
  let ?entry = "asRawLogEntry parsed"
  note l = accepted(1) and acc = accepted(2) and fresh = accepted(3) and st = accepted(4)
    and sess = accepted(5)
  have valid: "fst (isValidEntry parsed p)"
    using acc l isValidEntry_cases [of parsed p] by (auto simp: parseLine_def split: if_splits)
  have ver: "\<not> js_gt (entry_v ?entry) SUPPORTED_VERSION"
    using acc l parseLine_unsupported [OF valid, of E] by auto
  have fresh_key: "dedupKeyOf ?entry \<notin> set (seenKeys p)"
    using acc l parseLine_duplicate [OF valid ver, of E] by auto
  let ?p4 = "p\<lparr>seenKeys := pruneKeys (seenKeys p @ [dedupKeyOf ?entry]),
              latestTsPerSession := AList.update (entry_sessionId ?entry) (entry_ts ?entry)
                                      (latestTsPerSession p),
              sessions := AList.update (entry_sessionId ?entry) stored (sessions p)\<rparr>"
  have res: "snd (parseLine E l p)
      = (if length (sessions ?p4) > MAX_SESSIONS then evictOldestSessions E ?p4 else ?p4)"
    using acc fresh st unfolding l parseLine_fresh [OF valid ver fresh_key]
    by (auto simp: Let_def split: if_splits)
  have d4: "distinct (map fst (sessions ?p4))" using assms(1) by (simp add: distinct_update)
  have dist: "distinct (map fst (sessions (snd (parseLine E l p))))"
    unfolding sess using d4 by (simp add: distinct_map_filter)
  have len: "length (sessions (snd (parseLine E l p))) \<le> MAX_SESSIONS"
  proof (cases "length (sessions ?p4) > MAX_SESSIONS")
    case True
    from evict_to_bound [OF d4 True] True show ?thesis unfolding res by simp
  next
    case False
    then show ?thesis unfolding res by simp
  qed
  from dist len show ?thesis ..
qed
qed

lemma sessions_bounded_reachable:
  "distinct (map fst (sessions (parseLines E ls (newParser th))))
   \<and> length (sessions (parseLines E ls (newParser th))) \<le> MAX_SESSIONS"
proof (induction ls rule: rev_induct)
  case Nil
  then show ?case by (simp add: parseLines_def newParser_def)
next
  case (snoc l ls)
  have unf: "parseLines E (ls @ [l]) (newParser th)
             = snd (parseLine E l (parseLines E ls (newParser th)))"
    by (simp add: parseLines_def)
  from snoc show ?case unfolding unf by (intro sessions_bounded_step) simp_all
qed



subsection \<open>How long a dedup key is kept\<close>

lemma seenKeys_step:
  "seenKeys (snd (parseLine E l p)) = seenKeys p
   \<or> (\<exists>k'. seenKeys (snd (parseLine E l p)) = pruneKeys (seenKeys p @ [k']))"
proof (cases l)
  case None
  then show ?thesis by (simp add: parseLine_def)
next
  case (Some parsed)
  show ?thesis
  proof (cases "fst (isValidEntry parsed p)")
    case False
    then show ?thesis using isValidEntry_cases [of parsed p] Some by (simp add: parseLine_def)
  next
    case valid: True
    show ?thesis
    proof (cases "js_gt (entry_v (asRawLogEntry parsed)) SUPPORTED_VERSION")
      case True
      from parseLine_unsupported [OF valid True] Some show ?thesis by simp
    next
      case ver: False
      show ?thesis
      proof (cases "dedupKeyOf (asRawLogEntry parsed) \<in> set (seenKeys p)")
        case True
        from parseLine_duplicate [OF valid ver True] Some show ?thesis by simp
      next
        case False
        have "seenKeys (snd (parseLine E (Some parsed) p))
              = pruneKeys (seenKeys p @ [dedupKeyOf (asRawLogEntry parsed)])"
          unfolding parseLine_fresh [OF valid ver False]
          by (simp add: Let_def seenKeys_evict split: sum.splits)
        then show ?thesis using Some by blast
      qed
    qed
  qed
qed

lemma pruneKeys_keeps_recent:
  assumes "length (pre @ k # post) \<le> MAX_DEDUP_KEYS" and "length post < MAX_DEDUP_KEYS div 2"
  shows "\<exists>pre'. pruneKeys ((pre @ k # post) @ [k']) = pre' @ k # (post @ [k'])
              \<and> length (pre' @ k # (post @ [k'])) \<le> MAX_DEDUP_KEYS"
proof (cases "length ((pre @ k # post) @ [k']) > MAX_DEDUP_KEYS")
  case True
  with assms(1) have len: "length pre + length post + 1 = MAX_DEDUP_KEYS" by simp
  with assms(2) have half: "MAX_DEDUP_KEYS div 2 \<le> length pre"
    by (simp add: MAX_DEDUP_KEYS_def)
  then have "drop (MAX_DEDUP_KEYS div 2) ((pre @ k # post) @ [k'])
             = drop (MAX_DEDUP_KEYS div 2) pre @ k # (post @ [k'])" by simp
  moreover have "length (drop (MAX_DEDUP_KEYS div 2) pre @ k # (post @ [k'])) \<le> MAX_DEDUP_KEYS"
    using len half by (simp add: MAX_DEDUP_KEYS_def)
  ultimately show ?thesis using True by (auto simp: pruneKeys_def)
next
  case False
  then have "pruneKeys ((pre @ k # post) @ [k']) = pre @ k # (post @ [k'])"
    by (simp add: pruneKeys_def)
  moreover from False have "length (pre @ k # (post @ [k'])) \<le> MAX_DEDUP_KEYS" by simp
  ultimately show ?thesis by blast
qed

lemma key_survives_lines:
  assumes "seenKeys p = pre @ k # post" and "length (seenKeys p) \<le> MAX_DEDUP_KEYS"
    and "length post + length ls \<le> MAX_DEDUP_KEYS div 2"
  shows "\<exists>pre' post'. seenKeys (parseLines E ls p) = pre' @ k # post'
           \<and> length post' \<le> length post + length ls
           \<and> length (seenKeys (parseLines E ls p)) \<le> MAX_DEDUP_KEYS"
  using assms
proof (induction ls arbitrary: p pre post)
  case Nil
  then show ?case by (auto simp: parseLines_def)
next
  case (Cons l ls)
  let ?q = "snd (parseLine E l p)"
  have unf: "parseLines E (l # ls) p = parseLines E ls ?q" by (simp add: parseLines_def)
  from Cons.prems(3) have small: "length post < MAX_DEDUP_KEYS div 2" by simp
  obtain pre1 post1 where q: "seenKeys ?q = pre1 @ k # post1"
    and l1: "length post1 \<le> Suc (length post)" and b1: "length (seenKeys ?q) \<le> MAX_DEDUP_KEYS"
  proof -
    from seenKeys_step [of E l p] consider "seenKeys ?q = seenKeys p"
      | k' where "seenKeys ?q = pruneKeys (seenKeys p @ [k'])" by blast
    then show ?thesis
    proof cases
      case 1
      with Cons.prems(1,2) that [of pre post] show ?thesis by simp
    next
      case (2 k')
      from pruneKeys_keeps_recent [OF Cons.prems(2) [unfolded Cons.prems(1)] small, of k']
      obtain pre' where "pruneKeys ((pre @ k # post) @ [k']) = pre' @ k # (post @ [k'])"
        "length (pre' @ k # (post @ [k'])) \<le> MAX_DEDUP_KEYS" by blast
      with 2 Cons.prems(1) that [of pre' "post @ [k']"] show ?thesis by simp
    qed
  qed
  from l1 Cons.prems(3) have "length post1 + length ls \<le> MAX_DEDUP_KEYS div 2" by simp
  from Cons.IH [OF q b1 this] obtain pre' post' where
    "seenKeys (parseLines E ls ?q) = pre' @ k # post'" "length post' \<le> length post1 + length ls"
    "length (seenKeys (parseLines E ls ?q)) \<le> MAX_DEDUP_KEYS" by blast
  with l1 show ?case unfolding unf by (intro exI [of _ pre'] exI [of _ post']) simp
qed

lemma seenKeys_bounded_reachable:
  "length (seenKeys (parseLines E ls (newParser th))) \<le> MAX_DEDUP_KEYS"
proof (induction ls rule: rev_induct)
  case Nil
  then show ?case by (simp add: parseLines_def newParser_def)
next
  case (snoc l ls)
  let ?p = "parseLines E ls (newParser th)"
  have unf: "parseLines E (ls @ [l]) (newParser th) = snd (parseLine E l ?p)"
    by (simp add: parseLines_def)
  from seenKeys_step [of E l ?p] snoc show ?case
    unfolding unf by (auto simp: pruneKeys_def MAX_DEDUP_KEYS_def)
qed

lemma fresh_key_is_last:
  assumes "fst (isValidEntry parsed p)"
    and "\<not> js_gt (entry_v (asRawLogEntry parsed)) SUPPORTED_VERSION"
    and "dedupKeyOf (asRawLogEntry parsed) \<notin> set (seenKeys p)"
    and "length (seenKeys p) \<le> MAX_DEDUP_KEYS"
  shows "\<exists>pre. seenKeys (snd (parseLine E (Some parsed) p)) = pre @ [dedupKeyOf (asRawLogEntry parsed)]
           \<and> length (seenKeys (snd (parseLine E (Some parsed) p))) \<le> MAX_DEDUP_KEYS"
proof -
  let ?k = "dedupKeyOf (asRawLogEntry parsed)"
  have s: "seenKeys (snd (parseLine E (Some parsed) p)) = pruneKeys (seenKeys p @ [?k])"
    unfolding parseLine_fresh [OF assms(1-3)]
    by (simp add: Let_def seenKeys_evict split: sum.splits)
  show ?thesis
  proof (cases "length (seenKeys p @ [?k]) > MAX_DEDUP_KEYS")
    case True
    with assms(4) have "length (seenKeys p) = MAX_DEDUP_KEYS" by simp
    then have "MAX_DEDUP_KEYS div 2 \<le> length (seenKeys p)" by simp
    then have "drop (MAX_DEDUP_KEYS div 2) (seenKeys p @ [?k])
               = drop (MAX_DEDUP_KEYS div 2) (seenKeys p) @ [?k]" by simp
    moreover have "length (drop (MAX_DEDUP_KEYS div 2) (seenKeys p) @ [?k]) \<le> MAX_DEDUP_KEYS"
      using \<open>length (seenKeys p) = MAX_DEDUP_KEYS\<close> by (simp add: MAX_DEDUP_KEYS_def)
    ultimately show ?thesis unfolding s using True by (auto simp: pruneKeys_def)
  next
    case False
    then show ?thesis unfolding s by (auto simp: pruneKeys_def)
  qed
qed

subsection \<open>Sticky start time, duplicates, ordering, eviction\<close>

text \<open>
  Claim C9. When \<open>parseLine\<close> accepts a record for a session id that the sessions map
  already holds (the map being within its bound of \<open>MAX_SESSIONS\<close> entries, as it is in
  every state reached from a new parser by \<open>sessions_bounded_reachable\<close>), the session
  stored for that id afterwards is the session that
  \<open>createSession\<close> builds from the record and the configured thresholds, with only
  \<open>startedAt\<close> replaced by the prior session's \<open>startedAt\<close>: \<open>lastUpdatedAt\<close>, \<open>agents\<close>, the
  summary and the status are those of the rebuilt session.
\<close>

theorem accepted_update_keeps_startedAt:
  assumes "parseLine E (Some parsed) p = (Accepted, p')"
    and "map_of (sessions p) (entry_sessionId (asRawLogEntry parsed)) = Some prior"
    and "length (sessions p) \<le> MAX_SESSIONS"
  shows "\<exists>fresh stored.
      createSession E (asRawLogEntry parsed) (thresholds p) = Inr fresh
    \<and> map_of (sessions p') (entry_sessionId (asRawLogEntry parsed)) = Some stored
    \<and> stored = fresh\<lparr>startedAt := startedAt prior\<rparr>
    \<and> startedAt stored = startedAt prior
    \<and> lastUpdatedAt stored = entry_ts (asRawLogEntry parsed)
    \<and> agents stored = agents fresh
    \<and> sessionSummary stored = sessionSummary fresh
    \<and> sessionStatus stored = sessionStatus fresh
    \<and> sessionId stored = entry_sessionId (asRawLogEntry parsed)"
proof -
  let ?entry = "asRawLogEntry parsed"
  let ?sid = "entry_sessionId ?entry"
  have valid: "fst (isValidEntry parsed p)"
    using assms(1) isValidEntry_cases [of parsed p]
    by (auto simp: parseLine_def split: if_splits)
  have ver: "\<not> js_gt (entry_v ?entry) SUPPORTED_VERSION"
    using assms(1) parseLine_unsupported [OF valid, of E] by auto
  have fresh_key: "dedupKeyOf ?entry \<notin> set (seenKeys p)"
    using assms(1) parseLine_duplicate [OF valid ver, of E] by auto
  note step = parseLine_fresh [OF valid ver fresh_key, of E]
  from assms(1) obtain fresh where fresh: "createSession E ?entry (thresholds p) = Inr fresh"
    unfolding step by (auto simp: Let_def split: if_splits sum.splits)
  let ?stored = "fresh\<lparr>startedAt := startedAt prior\<rparr>"
  have len: "length (AList.update ?sid ?stored (sessions p)) = length (sessions p)"
    using assms(2) by (rule length_update_present)
  have "sessions p' = AList.update ?sid ?stored (sessions p)"
    using assms(1,2,3) fresh len unfolding step
    by (auto simp: Let_def split: if_splits)
  then have "map_of (sessions p') ?sid = Some ?stored" by (simp add: update_conv')
  with fresh createSession_fields [OF fresh] show ?thesis by simp
qed

theorem accepted_update_keeps_startedAt_witness:
  "parseLine exampleEngine (Some (lineWith ''s1'' ''2026-01-02'' [rawChain 0 0])) (parserAfter ''2026-01-01'')
     = (Accepted,
        snd (parseLine exampleEngine (Some (lineWith ''s1'' ''2026-01-02'' [rawChain 0 0]))
               (parserAfter ''2026-01-01'')))
   \<and> map_option startedAt (map_of (sessions (parserAfter ''2026-01-01'')) ''s1'') = Some ''2026-01-01''
   \<and> length (sessions (parserAfter ''2026-01-01'')) \<le> MAX_SESSIONS
   \<and> map_option startedAt
        (map_of (sessions (snd (parseLine exampleEngine
            (Some (lineWith ''s1'' ''2026-01-02'' [rawChain 0 0])) (parserAfter ''2026-01-01''))))
          ''s1'') = Some ''2026-01-01''
   \<and> map_option lastUpdatedAt
        (map_of (sessions (snd (parseLine exampleEngine
            (Some (lineWith ''s1'' ''2026-01-02'' [rawChain 0 0])) (parserAfter ''2026-01-01''))))
          ''s1'') = Some ''2026-01-02''"
proof -
  let ?line = "lineWith ''s1'' ''2026-01-02'' [rawChain 0 0]"
  let ?p = "parserAfter ''2026-01-01''"
  let ?prior = "the (map_of (sessions ?p) ''s1'')"
  have h1: "parseLine exampleEngine (Some ?line) ?p
     = (Accepted, snd (parseLine exampleEngine (Some ?line) ?p))"
    by code_simp
  have sid: "entry_sessionId (asRawLogEntry ?line) = ''s1''"
    and ts: "entry_ts (asRawLogEntry ?line) = ''2026-01-02''"
    by (simp_all add: asRawLogEntry_def lineWith_def getProp_def)
  have h2: "map_of (sessions ?p) (entry_sessionId (asRawLogEntry ?line)) = Some ?prior"
    unfolding sid by code_simp
  have h3: "length (sessions ?p) \<le> MAX_SESSIONS"
    by code_simp
  have pr: "startedAt ?prior = ''2026-01-01''"
    by code_simp
  from accepted_update_keeps_startedAt [OF h1 h2 h3] h1 h2 h3 pr sid ts
  show ?thesis by auto
qed

text \<open>
  Claim C5, as amended. A valid line of a supported version whose dedup key is in
  \<open>seenKeys\<close> is discarded by the silent exit and leaves the whole parser, the sessions map
  included, unchanged. After any valid line of a supported version has been processed, its
  key is in \<open>seenKeys\<close>; so a second valid line with the same session id and timestamp that
  directly follows it is discarded, whatever its content. The same holds when at most
  \<open>MAX_DEDUP_KEYS / 2\<close> other lines are parsed between the first occurrence of the key and
  the second line: the same (sessionId, timestamp) fed twice then yields at most one
  session update.
\<close>

theorem duplicate_key_discarded:
  assumes "fst (isValidEntry parsed p)"
    and "\<not> js_gt (entry_v (asRawLogEntry parsed)) SUPPORTED_VERSION"
  shows "(dedupKeyOf (asRawLogEntry parsed) \<in> set (seenKeys p)
            \<longrightarrow> parseLine E (Some parsed) p = (Duplicate, p))
       \<and> dedupKeyOf (asRawLogEntry parsed) \<in> set (seenKeys (snd (parseLine E (Some parsed) p)))
       \<and> (\<forall>again.
             fst (isValidEntry again (snd (parseLine E (Some parsed) p)))
           \<and> \<not> js_gt (entry_v (asRawLogEntry again)) SUPPORTED_VERSION
           \<and> entry_sessionId (asRawLogEntry again) = entry_sessionId (asRawLogEntry parsed)
           \<and> entry_ts (asRawLogEntry again) = entry_ts (asRawLogEntry parsed)
           \<longrightarrow> parseLine E (Some again) (snd (parseLine E (Some parsed) p))
                 = (Duplicate, snd (parseLine E (Some parsed) p)))
       \<and> (\<forall>ls again.
             dedupKeyOf (asRawLogEntry parsed) \<notin> set (seenKeys p)
           \<and> length (seenKeys p) \<le> MAX_DEDUP_KEYS
           \<and> length ls \<le> MAX_DEDUP_KEYS div 2
           \<and> fst (isValidEntry again (parseLines E ls (snd (parseLine E (Some parsed) p))))
           \<and> \<not> js_gt (entry_v (asRawLogEntry again)) SUPPORTED_VERSION
           \<and> entry_sessionId (asRawLogEntry again) = entry_sessionId (asRawLogEntry parsed)
           \<and> entry_ts (asRawLogEntry again) = entry_ts (asRawLogEntry parsed)
           \<longrightarrow> parseLine E (Some again) (parseLines E ls (snd (parseLine E (Some parsed) p)))
                 = (Duplicate, parseLines E ls (snd (parseLine E (Some parsed) p))))"
proof -
  let ?k = "dedupKeyOf (asRawLogEntry parsed)"
  let ?p' = "snd (parseLine E (Some parsed) p)"
  have A: "?k \<in> set (seenKeys p) \<longrightarrow> parseLine E (Some parsed) p = (Duplicate, p)"
    using parseLine_duplicate [OF assms] by blast
  have seen: "?k \<in> set (seenKeys ?p')"
    using assms by (rule parseLine_key_seen)
  have same_key: "dedupKeyOf (asRawLogEntry again) = ?k"
    if "entry_sessionId (asRawLogEntry again) = entry_sessionId (asRawLogEntry parsed)"
      and "entry_ts (asRawLogEntry again) = entry_ts (asRawLogEntry parsed)" for again
    using that by (simp add: dedupKeyOf_def)
  have C: "parseLine E (Some again) ?p' = (Duplicate, ?p')"
    if "fst (isValidEntry again ?p')
           \<and> \<not> js_gt (entry_v (asRawLogEntry again)) SUPPORTED_VERSION
           \<and> entry_sessionId (asRawLogEntry again) = entry_sessionId (asRawLogEntry parsed)
           \<and> entry_ts (asRawLogEntry again) = entry_ts (asRawLogEntry parsed)" for again
    using that seen same_key [of again] parseLine_duplicate [of again ?p' E] by simp
  have D: "parseLine E (Some again) (parseLines E ls ?p') = (Duplicate, parseLines E ls ?p')"
    if h: "?k \<notin> set (seenKeys p)
           \<and> length (seenKeys p) \<le> MAX_DEDUP_KEYS
           \<and> length ls \<le> MAX_DEDUP_KEYS div 2
           \<and> fst (isValidEntry again (parseLines E ls ?p'))
           \<and> \<not> js_gt (entry_v (asRawLogEntry again)) SUPPORTED_VERSION
           \<and> entry_sessionId (asRawLogEntry again) = entry_sessionId (asRawLogEntry parsed)
           \<and> entry_ts (asRawLogEntry again) = entry_ts (asRawLogEntry parsed)" for ls again
  proof -
    from h fresh_key_is_last [OF assms, of E] obtain pre where
      last: "seenKeys ?p' = pre @ ?k # []" and bound: "length (seenKeys ?p') \<le> MAX_DEDUP_KEYS"
      by auto
    from h have "length ([] :: string list) + length ls \<le> MAX_DEDUP_KEYS div 2" by simp
    from key_survives_lines [OF last bound this, of E]
    have "?k \<in> set (seenKeys (parseLines E ls ?p'))" by auto
    with h same_key [of again] show ?thesis
      using parseLine_duplicate [of again "parseLines E ls ?p'" E] by simp
  qed
  from A seen C D show ?thesis by blast
qed

theorem duplicate_key_discarded_witness:
  "fst (isValidEntry (lineWith ''s1'' ''2026-01-01'' []) (newParser DEFAULT_THRESHOLDS))
   \<and> \<not> js_gt (entry_v (asRawLogEntry (lineWith ''s1'' ''2026-01-01'' []))) SUPPORTED_VERSION
   \<and> fst (parseLine exampleEngine (Some (lineWith ''s1'' ''2026-01-01'' [])) (newParser DEFAULT_THRESHOLDS))
       = Accepted
   \<and> parseLine exampleEngine (Some (lineWith ''s1'' ''2026-01-01'' [rawChain 0 0])) (parserAfter ''2026-01-01'')
       = (Duplicate, parserAfter ''2026-01-01'')
   \<and> parseLine exampleEngine (Some (lineWith ''s1'' ''2026-01-01'' [rawChain 0 0]))
        (parseLines exampleEngine [Some (lineWith ''s2'' ''2026-01-03'' [])] (parserAfter ''2026-01-01''))
       = (Duplicate,
          parseLines exampleEngine [Some (lineWith ''s2'' ''2026-01-03'' [])] (parserAfter ''2026-01-01''))"
proof -
  let ?l1 = "lineWith ''s1'' ''2026-01-01'' []"
  let ?l2 = "lineWith ''s1'' ''2026-01-01'' [rawChain 0 0]"
  let ?other = "[Some (lineWith ''s2'' ''2026-01-03'' [])]"
  let ?p0 = "newParser DEFAULT_THRESHOLDS"
  let ?p1 = "snd (parseLine exampleEngine (Some ?l1) ?p0)"
  have v1: "fst (isValidEntry ?l1 ?p0)" by code_simp
  have n1: "\<not> js_gt (entry_v (asRawLogEntry ?l1)) SUPPORTED_VERSION" by code_simp
  have acc: "fst (parseLine exampleEngine (Some ?l1) ?p0) = Accepted" by code_simp
  have v2: "fst (isValidEntry ?l2 ?p1)" by code_simp
  have v3: "fst (isValidEntry ?l2 (parseLines exampleEngine ?other ?p1))" by code_simp
  have n2: "\<not> js_gt (entry_v (asRawLogEntry ?l2)) SUPPORTED_VERSION" by code_simp
  have same: "entry_sessionId (asRawLogEntry ?l2) = entry_sessionId (asRawLogEntry ?l1)"
    "entry_ts (asRawLogEntry ?l2) = entry_ts (asRawLogEntry ?l1)"
    by (simp_all add: asRawLogEntry_def lineWith_def getProp_def)
  have first: "dedupKeyOf (asRawLogEntry ?l1) \<notin> set (seenKeys ?p0)"
    "length (seenKeys ?p0) \<le> MAX_DEDUP_KEYS" "length ?other \<le> MAX_DEDUP_KEYS div 2"
    by (simp_all add: newParser_def MAX_DEDUP_KEYS_def)
  note dup = duplicate_key_discarded [OF v1 n1, of exampleEngine]
  from dup v2 n2 same
  have d1: "parseLine exampleEngine (Some ?l2) ?p1 = (Duplicate, ?p1)"
    by blast
  from dup first v3 n2 same
  have d2: "parseLine exampleEngine (Some ?l2) (parseLines exampleEngine ?other ?p1)
        = (Duplicate, parseLines exampleEngine ?other ?p1)"
    by blast
  from v1 n1 acc d1 d2 show ?thesis unfolding parserAfter_def by (intro conjI)
qed



text \<open>
  Claim C10, as amended. \<open>evictOldestSessions\<close> leaves \<open>seenKeys\<close> as it is and removes,
  with every session it evicts, the \<open>latestTsPerSession\<close> entry of that session.
  Consequently a valid record of a supported version whose dedup key is still in
  \<open>seenKeys\<close>, such as the record that created an evicted session as long as its key has
  not been pruned, is discarded as a duplicate by the silent exit after the eviction, and
  the parser, with the session missing from it, stays as it is.
\<close>

theorem evicted_session_stays_out_while_key_seen:
  "seenKeys (evictOldestSessions E p) = seenKeys p
   \<and> (\<forall>sid s. map_of (sessions p) sid = Some s
          \<and> map_of (sessions (evictOldestSessions E p)) sid = None
        \<longrightarrow> map_of (latestTsPerSession (evictOldestSessions E p)) sid = None)
   \<and> (\<forall>parsed. fst (isValidEntry parsed (evictOldestSessions E p))
          \<and> \<not> js_gt (entry_v (asRawLogEntry parsed)) SUPPORTED_VERSION
          \<and> dedupKeyOf (asRawLogEntry parsed) \<in> set (seenKeys p)
        \<longrightarrow> parseLine E (Some parsed) (evictOldestSessions E p)
              = (Duplicate, evictOldestSessions E p))"
proof (intro conjI allI impI)
  show keys: "seenKeys (evictOldestSessions E p) = seenKeys p" by (rule seenKeys_evict)
  fix parsed
  assume "fst (isValidEntry parsed (evictOldestSessions E p))
          \<and> \<not> js_gt (entry_v (asRawLogEntry parsed)) SUPPORTED_VERSION
          \<and> dedupKeyOf (asRawLogEntry parsed) \<in> set (seenKeys p)"
  then show "parseLine E (Some parsed) (evictOldestSessions E p)
              = (Duplicate, evictOldestSessions E p)"
    using parseLine_duplicate [of parsed "evictOldestSessions E p" E] keys by simp
next
  fix sid s
  assume a: "map_of (sessions p) sid = Some s
          \<and> map_of (sessions (evictOldestSessions E p)) sid = None"
  then have "sid \<in> evictedIds E p"
    by (subst (asm) evict_view) (auto simp: map_of_filter_keys split: if_splits)
  then show "map_of (latestTsPerSession (evictOldestSessions E p)) sid = None"
    by (subst evict_view) (simp add: map_of_filter_keys)
qed

subsection \<open>A long run: one line for each of many sessions\<close>

lemma sidOf_inj: "sidOf i = sidOf j \<longleftrightarrow> i = j"
proof
  assume "sidOf i = sidOf j"
  then have "length (sidOf i) = length (sidOf j)" by simp
  then show "i = j" by (simp add: sidOf_def)
qed simp

lemma keyOf_inj: "keyOf i = keyOf j \<longleftrightarrow> i = j"
  by (simp add: keyOf_def sidOf_inj)

lemma sessionLine_valid: "isValidEntry (sessionLine i) p = (True, p)"
  by (simp add: isValidEntry_def sessionLine_def lineWith_def getProp_def isObject_def isNumber_def
      isString_def isArray_def arrayItems_def sidOf_def Let_def)

lemma sessionLine_entry:
  "asRawLogEntry (sessionLine i)
   = \<lparr> entry_v = Fin 1, entry_ts = tsAll, entry_sessionId = sidOf i, entry_agents = [] \<rparr>"
  by (simp add: asRawLogEntry_def sessionLine_def lineWith_def getProp_def arrayItems_def)

lemma flattenAgents_Nil: "flattenAgents [] 0 = []"
  by (subst flattenAgents.simps) simp

lemma sessionLine_session:
  "createSession E \<lparr> entry_v = Fin 1, entry_ts = tsAll, entry_sessionId = sidOf i, entry_agents = [] \<rparr> th
   = Inr (sessionOf i)"
  by (simp add: createSession_def computeSessionSummary_def flattenAgents_Nil sessionOf_def Let_def)

lemma map_of_numbered_absent:
  "i \<notin> set js \<Longrightarrow> map_of (map (\<lambda>j. (sidOf j, f j)) js) (sidOf i) = None"
  by (induction js) (auto simp: sidOf_inj)

lemma update_numbered_absent:
  "i \<notin> set js \<Longrightarrow>
     AList.update (sidOf i) v (map (\<lambda>j. (sidOf j, f j)) js) = map (\<lambda>j. (sidOf j, f j)) js @ [(sidOf i, v)]"
  by (induction js) (auto simp: sidOf_inj)

lemma js_sort_already_sorted:
  "(\<And>x y. x \<in> set xs \<Longrightarrow> y \<in> set xs \<Longrightarrow> cmp x y \<le> 0) \<Longrightarrow> js_sort cmp xs = xs"
proof (induction xs)
  case Nil
  then show ?case by (simp add: js_sort_def)
next
  case (Cons x xs)
  then have "js_sort cmp xs = xs" by simp
  then have "js_sort cmp (x # xs) = insert_by cmp x xs" by (simp add: js_sort_def)
  also have "\<dots> = x # xs" using Cons.prems by (cases xs) auto
  finally show ?case .
qed

lemma filter_numbered_head:
  "j0 \<notin> set rest \<Longrightarrow>
     filter (\<lambda>(k, _). k \<notin> {sidOf j0}) (map (\<lambda>j. (sidOf j, f j)) (j0 # rest))
     = map (\<lambda>j. (sidOf j, f j)) rest"
  by (induction rest) (auto simp: sidOf_inj)

lemma evict_one:
  assumes "length js = MAX_SESSIONS" and "distinct (js @ [i])"
  shows "evictOldestSessions exampleEngine (stateOf K (js @ [i])) = stateOf K (tl js @ [i])"
proof -
  from assms(1) obtain j0 rest where js: "js = j0 # rest"
    by (cases js) (auto simp: MAX_SESSIONS_def)
  let ?p = "stateOf K (js @ [i])"
  let ?cmp = "\<lambda>a b. localeCompare exampleEngine (lastUpdatedAt (snd a)) (lastUpdatedAt (snd b))"
  have "?cmp x y \<le> 0" if "x \<in> set (sessions ?p)" "y \<in> set (sessions ?p)" for x y
    using that by (auto simp: stateOf_def sessionOf_def exampleEngine_def)
  then have sorted: "js_sort ?cmp (sessions ?p) = sessions ?p" by (rule js_sort_already_sorted)
  have len: "int (length (sessions ?p)) - int MAX_SESSIONS = 1"
    using assms(1) by (simp add: stateOf_def)
  have ids: "evictedIds exampleEngine ?p = {sidOf j0}"
    unfolding evictedIds_def sorted len by (simp add: slice0_def stateOf_def js)
  from assms(2) have nin: "j0 \<notin> set (rest @ [i])" by (auto simp: js)
  show ?thesis
    unfolding evict_view ids
    using filter_numbered_head [OF nin, of "\<lambda>j. tsAll"] filter_numbered_head [OF nin, of sessionOf]
    by (simp add: stateOf_def js)
qed

lemma step_numbered:
  assumes "i \<notin> set js" and "distinct js" and "keyOf i \<notin> set K" and "length js \<le> MAX_SESSIONS"
  shows "parseLine exampleEngine (Some (sessionLine i)) (stateOf K js)
   = (Accepted, stateOf (pruneKeys (K @ [keyOf i]))
                  (if length js = MAX_SESSIONS then tl js @ [i] else js @ [i]))"
proof -
  let ?p = "stateOf K js"
  have valid: "fst (isValidEntry (sessionLine i) ?p)" by (simp add: sessionLine_valid)
  have ver: "\<not> js_gt (entry_v (asRawLogEntry (sessionLine i))) SUPPORTED_VERSION"
    by (simp add: sessionLine_entry SUPPORTED_VERSION_def js_gt_def)
  have key: "dedupKeyOf (asRawLogEntry (sessionLine i)) = keyOf i"
    by (simp add: sessionLine_entry dedupKeyOf_def keyOf_def)
  have fresh: "dedupKeyOf (asRawLogEntry (sessionLine i)) \<notin> set (seenKeys ?p)"
    using assms(3) by (simp add: key stateOf_def)
  have p4: "?p\<lparr>seenKeys := pruneKeys (K @ [keyOf i]),
              latestTsPerSession := map (\<lambda>j. (sidOf j, tsAll)) js @ [(sidOf i, tsAll)],
              sessions := map (\<lambda>j. (sidOf j, sessionOf j)) js @ [(sidOf i, sessionOf i)]\<rparr>
           = stateOf (pruneKeys (K @ [keyOf i])) (js @ [i])"
    by (simp add: stateOf_def)
  have res: "parseLine exampleEngine (Some (sessionLine i)) ?p =
      (Accepted, if length js = MAX_SESSIONS
                 then evictOldestSessions exampleEngine (stateOf (pruneKeys (K @ [keyOf i])) (js @ [i]))
                 else stateOf (pruneKeys (K @ [keyOf i])) (js @ [i]))"
    unfolding parseLine_fresh [OF valid ver fresh] key sessionLine_entry
    using assms(1,4) p4
    by (simp add: Let_def stateOf_def sessionLine_session map_of_numbered_absent
        update_numbered_absent dedupKeyOf_def keyOf_def)
  show ?thesis
  proof (cases "length js = MAX_SESSIONS")
    case True
    from assms(1,2) have "distinct (js @ [i])" by simp
    from evict_one [OF True this] True show ?thesis unfolding res by simp
  next
    case False
    then show ?thesis unfolding res by simp
  qed
qed

lemma feedSessions_Suc:
  "feedSessions (Suc n) = snd (parseLine exampleEngine (Some (sessionLine n)) (feedSessions n))"
  by (simp add: feedSessions_def parseLines_def)

lemma feedSessions_0: "feedSessions 0 = stateOf [] []"
  by (simp add: feedSessions_def parseLines_def newParser_def stateOf_def)

lemma window_step:
  "(if length [n - MAX_SESSIONS..<n] = MAX_SESSIONS
    then tl [n - MAX_SESSIONS..<n] @ [n] else [n - MAX_SESSIONS..<n] @ [n])
   = [Suc n - MAX_SESSIONS..<Suc n]"
proof (cases "MAX_SESSIONS \<le> n")
  case True
  then have "Suc n - MAX_SESSIONS = Suc (n - MAX_SESSIONS)" by simp
  moreover have "0 < MAX_SESSIONS" by (simp add: MAX_SESSIONS_def)
  ultimately show ?thesis using True by (simp add: tl_upt)
next
  case False
  then show ?thesis by simp
qed

lemma feedSessions_next:
  assumes "feedSessions n = stateOf (map keyOf [k..<n]) [n - MAX_SESSIONS..<n]"
  shows "feedSessions (Suc n)
         = stateOf (pruneKeys (map keyOf [k..<n] @ [keyOf n])) [Suc n - MAX_SESSIONS..<Suc n]"
proof -
  have "parseLine exampleEngine (Some (sessionLine n))
          (stateOf (map keyOf [k..<n]) [n - MAX_SESSIONS..<n])
        = (Accepted, stateOf (pruneKeys (map keyOf [k..<n] @ [keyOf n]))
             (if length [n - MAX_SESSIONS..<n] = MAX_SESSIONS
              then tl [n - MAX_SESSIONS..<n] @ [n] else [n - MAX_SESSIONS..<n] @ [n]))"
    by (rule step_numbered) (auto simp: keyOf_inj)
  then show ?thesis
    unfolding feedSessions_Suc assms window_step by simp
qed

lemma feedSessions_closed:
  "n \<le> MAX_DEDUP_KEYS \<Longrightarrow> feedSessions n = stateOf (map keyOf [0..<n]) [n - MAX_SESSIONS..<n]"
proof (induction n)
  case 0
  then show ?case by (simp add: feedSessions_0)
next
  case (Suc n)
  then have IH: "feedSessions n = stateOf (map keyOf [0..<n]) [n - MAX_SESSIONS..<n]" by simp
  have "pruneKeys (map keyOf [0..<n] @ [keyOf n]) = map keyOf [0..<Suc n]"
    using Suc.prems by (simp add: pruneKeys_def)
  with feedSessions_next [OF IH] show ?case by simp
qed

lemma feedSessions_pruned:
  "feedSessions (Suc MAX_DEDUP_KEYS)
   = stateOf (map keyOf [MAX_DEDUP_KEYS div 2..<Suc MAX_DEDUP_KEYS])
       [Suc MAX_DEDUP_KEYS - MAX_SESSIONS..<Suc MAX_DEDUP_KEYS]"
proof -
  have "feedSessions MAX_DEDUP_KEYS
        = stateOf (map keyOf [0..<MAX_DEDUP_KEYS]) [MAX_DEDUP_KEYS - MAX_SESSIONS..<MAX_DEDUP_KEYS]"
    by (rule feedSessions_closed) simp
  from feedSessions_next [OF this]
  have "feedSessions (Suc MAX_DEDUP_KEYS)
         = stateOf (pruneKeys (map keyOf [0..<MAX_DEDUP_KEYS] @ [keyOf MAX_DEDUP_KEYS]))
             [Suc MAX_DEDUP_KEYS - MAX_SESSIONS..<Suc MAX_DEDUP_KEYS]" .
  moreover have "map keyOf [0..<MAX_DEDUP_KEYS] @ [keyOf MAX_DEDUP_KEYS]
                 = map keyOf [0..<Suc MAX_DEDUP_KEYS]" by simp
  moreover have "pruneKeys (map keyOf [0..<Suc MAX_DEDUP_KEYS])
                 = map keyOf [MAX_DEDUP_KEYS div 2..<Suc MAX_DEDUP_KEYS]"
    by (simp add: pruneKeys_def drop_map del: upt_Suc)
  ultimately show ?thesis by (simp only:)
qed

lemma replay_first_line:
  "parseLine exampleEngine (Some (sessionLine 0)) (feedSessions (Suc MAX_DEDUP_KEYS))
   = (Accepted,
      stateOf (pruneKeys (map keyOf [MAX_DEDUP_KEYS div 2..<Suc MAX_DEDUP_KEYS] @ [keyOf 0]))
        (tl [Suc MAX_DEDUP_KEYS - MAX_SESSIONS..<Suc MAX_DEDUP_KEYS] @ [0]))"
proof -
  have pos: "0 < MAX_DEDUP_KEYS div 2" "0 < Suc MAX_DEDUP_KEYS - MAX_SESSIONS"
    "MAX_SESSIONS \<le> MAX_DEDUP_KEYS"
    by (simp_all add: MAX_DEDUP_KEYS_def MAX_SESSIONS_def)
  have len: "length [Suc MAX_DEDUP_KEYS - MAX_SESSIONS..<Suc MAX_DEDUP_KEYS] = MAX_SESSIONS"
    using pos(3) by (simp del: upt_Suc)
  have "parseLine exampleEngine (Some (sessionLine 0))
          (stateOf (map keyOf [MAX_DEDUP_KEYS div 2..<Suc MAX_DEDUP_KEYS])
             [Suc MAX_DEDUP_KEYS - MAX_SESSIONS..<Suc MAX_DEDUP_KEYS])
        = (Accepted, stateOf (pruneKeys (map keyOf [MAX_DEDUP_KEYS div 2..<Suc MAX_DEDUP_KEYS] @ [keyOf 0]))
             (if length [Suc MAX_DEDUP_KEYS - MAX_SESSIONS..<Suc MAX_DEDUP_KEYS] = MAX_SESSIONS
              then tl [Suc MAX_DEDUP_KEYS - MAX_SESSIONS..<Suc MAX_DEDUP_KEYS] @ [0]
              else [Suc MAX_DEDUP_KEYS - MAX_SESSIONS..<Suc MAX_DEDUP_KEYS] @ [0]))"
    by (rule step_numbered) (use pos len in \<open>auto simp: keyOf_inj simp del: upt_Suc\<close>)
  then show ?thesis unfolding feedSessions_pruned len by simp
qed

lemma map_of_numbered:
  "map_of (map (\<lambda>j. (sidOf j, f j)) js) (sidOf i) = (if i \<in> set js then Some (f i) else None)"
  by (induction js) (auto simp: sidOf_inj)

lemma sessions_stateOf:
  "map_of (sessions (stateOf K js)) (sidOf i) = (if i \<in> set js then Some (sessionOf i) else None)"
  "map_of (latestTsPerSession (stateOf K js)) (sidOf i) = (if i \<in> set js then Some tsAll else None)"
  "seenKeys (stateOf K js) = K"
  by (simp_all add: stateOf_def map_of_numbered)

theorem evicted_session_stays_out_while_key_seen_witness:
  "map_of (sessions (stateOf (map keyOf [0..<Suc MAX_SESSIONS]) ([0..<MAX_SESSIONS] @ [MAX_SESSIONS])))
      (sidOf 0) = Some (sessionOf 0)
   \<and> map_of (sessions (evictOldestSessions exampleEngine
        (stateOf (map keyOf [0..<Suc MAX_SESSIONS]) ([0..<MAX_SESSIONS] @ [MAX_SESSIONS])))) (sidOf 0) = None
   \<and> map_of (latestTsPerSession (evictOldestSessions exampleEngine
        (stateOf (map keyOf [0..<Suc MAX_SESSIONS]) ([0..<MAX_SESSIONS] @ [MAX_SESSIONS])))) (sidOf 0) = None
   \<and> dedupKeyOf (asRawLogEntry (sessionLine 0))
        \<in> set (seenKeys (stateOf (map keyOf [0..<Suc MAX_SESSIONS]) ([0..<MAX_SESSIONS] @ [MAX_SESSIONS])))
   \<and> parseLine exampleEngine (Some (sessionLine 0))
        (evictOldestSessions exampleEngine
          (stateOf (map keyOf [0..<Suc MAX_SESSIONS]) ([0..<MAX_SESSIONS] @ [MAX_SESSIONS])))
      = (Duplicate, evictOldestSessions exampleEngine
          (stateOf (map keyOf [0..<Suc MAX_SESSIONS]) ([0..<MAX_SESSIONS] @ [MAX_SESSIONS])))"
proof -
  let ?K = "map keyOf [0..<Suc MAX_SESSIONS]"
  let ?P = "stateOf ?K ([0..<MAX_SESSIONS] @ [MAX_SESSIONS])"
  have pos: "0 < MAX_SESSIONS" by (simp add: MAX_SESSIONS_def)
  have ev: "evictOldestSessions exampleEngine ?P = stateOf ?K (tl [0..<MAX_SESSIONS] @ [MAX_SESSIONS])"
    by (rule evict_one) simp_all
  have h1: "map_of (sessions ?P) (sidOf 0) = Some (sessionOf 0)"
    using pos by (simp add: sessions_stateOf del: upt_Suc)
  have h2: "map_of (sessions (evictOldestSessions exampleEngine ?P)) (sidOf 0) = None"
    unfolding ev using pos by (simp add: sessions_stateOf tl_upt del: upt_Suc)
  have h3: "fst (isValidEntry (sessionLine 0) (evictOldestSessions exampleEngine ?P))"
    by (simp add: sessionLine_valid)
  have h4: "\<not> js_gt (entry_v (asRawLogEntry (sessionLine 0))) SUPPORTED_VERSION"
    by (simp add: sessionLine_entry SUPPORTED_VERSION_def js_gt_def)
  have h5: "dedupKeyOf (asRawLogEntry (sessionLine 0)) \<in> set (seenKeys ?P)"
    by (simp add: sessionLine_entry dedupKeyOf_def keyOf_def sessions_stateOf del: upt_Suc)
  from evicted_session_stays_out_while_key_seen [of exampleEngine ?P] h1 h2 h3 h4 h5
  have "map_of (latestTsPerSession (evictOldestSessions exampleEngine ?P)) (sidOf 0) = None"
    and "parseLine exampleEngine (Some (sessionLine 0)) (evictOldestSessions exampleEngine ?P)
         = (Duplicate, evictOldestSessions exampleEngine ?P)"
    by blast+
  with h1 h2 h5 show ?thesis by (intro conjI)
qed

text \<open>
  Claim C5 as stated fails on long inputs. The parser is fed one line for each of
  \<open>MAX_DEDUP_KEYS + 1\<close> sessions; the first of these lines is accepted. The pruning of
  \<open>seenKeys\<close> has then dropped the key of that first line, and when the same line arrives
  again it is accepted a second time and the sessions map changes.
\<close>

theorem pruned_key_accepted_again:
  "fst (parseLine exampleEngine (Some (sessionLine 0)) (newParser DEFAULT_THRESHOLDS)) = Accepted
   \<and> feedSessions (Suc MAX_DEDUP_KEYS)
       = parseLines exampleEngine (map (\<lambda>i. Some (sessionLine i)) (0 # [1..<Suc MAX_DEDUP_KEYS]))
           (newParser DEFAULT_THRESHOLDS)
   \<and> fst (parseLine exampleEngine (Some (sessionLine 0)) (feedSessions (Suc MAX_DEDUP_KEYS))) = Accepted
   \<and> sessions (snd (parseLine exampleEngine (Some (sessionLine 0)) (feedSessions (Suc MAX_DEDUP_KEYS))))
       \<noteq> sessions (feedSessions (Suc MAX_DEDUP_KEYS))"
proof -
  have first: "fst (parseLine exampleEngine (Some (sessionLine 0)) (newParser DEFAULT_THRESHOLDS)) = Accepted"
    using step_numbered [of 0 "[]" "[]"] by (simp add: feedSessions_0 [symmetric] feedSessions_def
        parseLines_def)
  have fed: "feedSessions (Suc MAX_DEDUP_KEYS)
       = parseLines exampleEngine (map (\<lambda>i. Some (sessionLine i)) (0 # [1..<Suc MAX_DEDUP_KEYS]))
           (newParser DEFAULT_THRESHOLDS)"
    unfolding feedSessions_def by (simp only: upt_conv_Cons [of 0 "Suc MAX_DEDUP_KEYS"] zero_less_Suc
        if_True One_nat_def)
  have again: "fst (parseLine exampleEngine (Some (sessionLine 0)) (feedSessions (Suc MAX_DEDUP_KEYS)))
      = Accepted"
    unfolding replay_first_line by simp
  have pos: "0 < Suc MAX_DEDUP_KEYS - MAX_SESSIONS"
    by (simp add: MAX_DEDUP_KEYS_def MAX_SESSIONS_def)
  have before: "map_of (sessions (feedSessions (Suc MAX_DEDUP_KEYS))) (sidOf 0) = None"
    unfolding feedSessions_pruned using pos by (simp add: sessions_stateOf del: upt_Suc)
  have after: "map_of (sessions (snd (parseLine exampleEngine (Some (sessionLine 0))
                   (feedSessions (Suc MAX_DEDUP_KEYS))))) (sidOf 0) = Some (sessionOf 0)"
    unfolding replay_first_line by (simp add: sessions_stateOf del: upt_Suc)
  from before after
  have "sessions (snd (parseLine exampleEngine (Some (sessionLine 0)) (feedSessions (Suc MAX_DEDUP_KEYS))))
       \<noteq> sessions (feedSessions (Suc MAX_DEDUP_KEYS))"
    by (metis option.distinct(1))
  with first fed again show ?thesis by (intro conjI)
qed

text \<open>
  Claim C10 as stated fails once the key has been pruned. In the same run the first session
  is created by the first line, is in the map after \<open>MAX_SESSIONS\<close> lines and evicted by the
  next line, and is still missing after \<open>MAX_DEDUP_KEYS + 1\<close> lines, when its dedup key is
  no longer in \<open>seenKeys\<close>. Replaying the record that created it is then accepted, not
  discarded, and the session is back in the map.
\<close>

theorem evicted_session_restored_after_pruning:
  "map_of (sessions (feedSessions MAX_SESSIONS)) (sidOf 0) = Some (sessionOf 0)
   \<and> map_of (sessions (feedSessions (Suc MAX_SESSIONS))) (sidOf 0) = None
   \<and> map_of (sessions (feedSessions (Suc MAX_DEDUP_KEYS))) (sidOf 0) = None
   \<and> dedupKeyOf (asRawLogEntry (sessionLine 0)) \<notin> set (seenKeys (feedSessions (Suc MAX_DEDUP_KEYS)))
   \<and> fst (parseLine exampleEngine (Some (sessionLine 0)) (feedSessions (Suc MAX_DEDUP_KEYS))) = Accepted
   \<and> map_of (sessions (snd (parseLine exampleEngine (Some (sessionLine 0))
               (feedSessions (Suc MAX_DEDUP_KEYS))))) (sidOf 0) = Some (sessionOf 0)"
proof -
  have num: "0 < MAX_SESSIONS" "MAX_SESSIONS \<le> MAX_DEDUP_KEYS" "Suc MAX_SESSIONS \<le> MAX_DEDUP_KEYS"
    "0 < Suc MAX_DEDUP_KEYS - MAX_SESSIONS" "0 < MAX_DEDUP_KEYS div 2"
    by (simp_all add: MAX_DEDUP_KEYS_def MAX_SESSIONS_def)
  have a: "map_of (sessions (feedSessions MAX_SESSIONS)) (sidOf 0) = Some (sessionOf 0)"
    unfolding feedSessions_closed [OF num(2)] using num(1) by (simp add: sessions_stateOf)
  have b: "map_of (sessions (feedSessions (Suc MAX_SESSIONS))) (sidOf 0) = None"
    unfolding feedSessions_closed [OF num(3)] by (simp add: sessions_stateOf del: upt_Suc)
  have c: "map_of (sessions (feedSessions (Suc MAX_DEDUP_KEYS))) (sidOf 0) = None"
    unfolding feedSessions_pruned using num(4) by (simp add: sessions_stateOf del: upt_Suc)
  have d: "dedupKeyOf (asRawLogEntry (sessionLine 0)) \<notin> set (seenKeys (feedSessions (Suc MAX_DEDUP_KEYS)))"
    unfolding feedSessions_pruned using num(5)
    by (auto simp: sessions_stateOf sessionLine_entry dedupKeyOf_def keyOf_def sidOf_inj
        simp del: upt_Suc)
  have e: "fst (parseLine exampleEngine (Some (sessionLine 0)) (feedSessions (Suc MAX_DEDUP_KEYS)))
      = Accepted"
    unfolding replay_first_line by simp
  have f: "map_of (sessions (snd (parseLine exampleEngine (Some (sessionLine 0))
               (feedSessions (Suc MAX_DEDUP_KEYS))))) (sidOf 0) = Some (sessionOf 0)"
    unfolding replay_first_line by (simp add: sessions_stateOf del: upt_Suc)
  from a b c d e f show ?thesis by (intro conjI)
qed

end
